theory Spec2Isabelle
  imports Complex_Main "HOL-Library.Multiset" "HOL-Library.List_Lexorder" "HOL-Library.Sublist"
begin

section \<open>Python values and errors\<close>

text \<open>
  The exceptions the modelled functions of \<^verbatim>\<open>pyCompressor.py\<close> can raise.
  Every function that can raise returns \<open>error + 'a\<close>, with \<open>Inl\<close> the exception.
  \<open>OutOfFuel\<close> is the one value that is not a Python exception: the recursive helpers of
  \<^verbatim>\<open>process_subrs\<close> follow references between substrings and end only when these are
  acyclic, so they carry a budget of steps and give \<open>Inl OutOfFuel\<close> when it is used up.
\<close>

datatype error = IndexError | KeyError | AssertionError | AttributeError | TypeError
  | TokenNotRecognized | OutOfFuel

definition bind_err :: "error + 'a \<Rightarrow> ('a \<Rightarrow> error + 'b) \<Rightarrow> error + 'b" where
  "bind_err m f = (case m of Inl e \<Rightarrow> Inl e | Inr x \<Rightarrow> f x)"

text \<open>Evaluating a list of computations left to right, stopping at the first exception.\<close>

fun map_err :: "('a \<Rightarrow> error + 'b) \<Rightarrow> 'a list \<Rightarrow> error + 'b list" where
  "map_err f [] = Inr []"
| "map_err f (x # xs) =
     (case f x of Inl e \<Rightarrow> Inl e
      | Inr y \<Rightarrow> (case map_err f xs of Inl e \<Rightarrow> Inl e | Inr ys \<Rightarrow> Inr (y # ys)))"

definition filter_err :: "('a \<Rightarrow> error + bool) \<Rightarrow> 'a list \<Rightarrow> error + 'a list" where
  \<comment> \<open>\<^verbatim>\<open>[s for s in xs if p(s)]\<close>\<close>
  "filter_err p xs = bind_err (map_err p xs) (\<lambda>bs. Inr (map fst (filter snd (zip xs bs))))"

text \<open>A loop \<^verbatim>\<open>for x in xs: body\<close> over a state, stopping at the first exception.\<close>

fun fold_err :: "('a \<Rightarrow> 's \<Rightarrow> error + 's) \<Rightarrow> 'a list \<Rightarrow> 's \<Rightarrow> error + 's" where
  "fold_err f [] s = Inr s"
| "fold_err f (x # xs) s = (case f x s of Inl e \<Rightarrow> Inl e | Inr s' \<Rightarrow> fold_err f xs s')"

text \<open>\<^verbatim>\<open>xs[i]\<close> for \<open>i \<ge> 0\<close>, and \<^verbatim>\<open>xs[i]\<close> for any integer (negative indices count from the end).\<close>

definition py_get :: "'a list \<Rightarrow> nat \<Rightarrow> error + 'a" where
  "py_get xs i = (if i < length xs then Inr (xs ! i) else Inl IndexError)"

definition py_get_int :: "'a list \<Rightarrow> int \<Rightarrow> error + 'a" where
  "py_get_int xs i =
     (if 0 \<le> i \<and> i < int (length xs) then Inr (xs ! nat i)
      else if i < 0 \<and> - int (length xs) \<le> i then Inr (xs ! nat (int (length xs) + i))
      else Inl IndexError)"

text \<open>\<^verbatim>\<open>xs[a:b]\<close> for \<open>0 \<le> a\<close> and \<open>0 \<le> b\<close>: slicing never raises.\<close>

definition slice :: "nat \<Rightarrow> nat \<Rightarrow> 'a list \<Rightarrow> 'a list" where
  "slice a b xs = take (b - a) (drop a xs)"

text \<open>
  A charstring token after decompilation: an integer operand, a real operand, a string
  (an operator name, or the mask bytes that follow \<^verbatim>\<open>hintmask\<close>/\<^verbatim>\<open>cntrmask\<close>), or the
  tuple \<^verbatim>\<open>(program[i], program[i+1])\<close> that \<^verbatim>\<open>collapse_hintmask\<close> builds. The payload of a
  real operand is only ever compared, never computed with.
\<close>

datatype token = TInt int | TFloat rat | TStr string | TPair token token

definition is_mask_op :: "token \<Rightarrow> bool" where
  \<comment> \<open>\<^verbatim>\<open>tok in ("hintmask", "cntrmask")\<close>\<close>
  "is_mask_op tok = (tok = TStr ''hintmask'' \<or> tok = TStr ''cntrmask'')"

fun is_tuple :: "token \<Rightarrow> bool" where
  \<comment> \<open>\<^verbatim>\<open>isinstance(tok, tuple)\<close>\<close>
  "is_tuple (TPair a b) = True"
| "is_tuple t = False"


section \<open>Hint masks: \<^verbatim>\<open>collapse_hintmask\<close> and \<^verbatim>\<open>expand_hintmask\<close>\<close>

text \<open>
  Both functions iterate over \<^verbatim>\<open>enumerate(program)\<close> while assigning to slices of the very
  list they iterate over. A Python list iterator is an index into the list, compared with
  the current length at every step, so the loop is: while \<open>i < len(program)\<close>, look at
  \<open>program[i]\<close>, possibly replace a slice, and go on with \<open>i + 1\<close>.
  In \<^verbatim>\<open>collapse_hintmask\<close> the right-hand side reads \<^verbatim>\<open>program[i+1]\<close>, which raises
  \<^verbatim>\<open>IndexError\<close> when the mask operator is the last token.
\<close>

function collapse_loop :: "nat \<Rightarrow> token list \<Rightarrow> error + token list" where
  "collapse_loop i prog =
     (if i < length prog then
        (if is_mask_op (prog ! i) then
           (if i + 1 < length prog then
              collapse_loop (i + 1)
                (take i prog @ [TPair (prog ! i) (prog ! (i + 1))] @ drop (i + 2) prog)
            else Inl IndexError)
         else collapse_loop (i + 1) prog)
      else Inr prog)"
  by pat_completeness auto
termination
  by (relation "measure (\<lambda>(i, prog). length prog - i)") auto

declare collapse_loop.simps [simp del]

definition collapse_hintmask :: "token list \<Rightarrow> error + token list" where
  "collapse_hintmask prog = collapse_loop 0 prog"

text \<open>
  \<^verbatim>\<open>expand_hintmask\<close> replaces a tuple at \<open>i\<close> by its two elements and goes on at \<open>i + 1\<close>,
  which is then the second element of that tuple.
\<close>

function expand_loop :: "nat \<Rightarrow> token list \<Rightarrow> error + token list" where
  "expand_loop i prog =
     (if i < length prog then
        (case prog ! i of
           TPair a b \<Rightarrow>
             (if is_mask_op a then
                expand_loop (i + 1) (take i prog @ [a, b] @ drop (i + 1) prog)
              else Inl AssertionError)
         | _ \<Rightarrow> expand_loop (i + 1) prog)
      else Inr prog)"
  by pat_completeness auto
termination
  apply (relation "measure (\<lambda>(i, prog). sum_list (map (\<lambda>t. Suc (size t)) (drop i prog)))")
  apply simp
  subgoal for i prog
    using Cons_nth_drop_Suc [of i prog, symmetric] by simp
  subgoal for i prog
    using Cons_nth_drop_Suc [of i prog, symmetric] by simp
  subgoal for i prog
    using Cons_nth_drop_Suc [of i prog, symmetric] by simp
  subgoal for i prog
    using Cons_nth_drop_Suc [of i prog, symmetric] by simp
  done

declare expand_loop.simps [simp del]

definition expand_hintmask :: "token list \<Rightarrow> error + token list" where
  "expand_hintmask prog = expand_loop 0 prog"

text \<open>
  The input contract for a decompiled program: it holds no tuple, and every
  \<^verbatim>\<open>hintmask\<close>/\<^verbatim>\<open>cntrmask\<close> operator is immediately followed by its mask-bytes token. The
  mask bytes are read as data: a mask that happens to spell an operator name starts no pair.
\<close>

fun hintmask_paired :: "token list \<Rightarrow> bool" where
  "hintmask_paired [] = True"
| "hintmask_paired [t] = (\<not> is_mask_op t)"
| "hintmask_paired (t # m # ts) =
     (if is_mask_op t then hintmask_paired ts else hintmask_paired (m # ts))"

text \<open>The closed form of the collapsed program, used to state what the loop computes.\<close>

fun collapsed :: "token list \<Rightarrow> token list" where
  "collapsed [] = []"
| "collapsed [t] = [t]"
| "collapsed (t # m # ts) =
     (if is_mask_op t then TPair t m # collapsed ts else t # collapsed (m # ts))"


section \<open>\<^verbatim>\<open>CandidateSubr\<close> objects\<close>

text \<open>
  \<^verbatim>\<open>CandidateSubr\<close> objects are shared and mutated: a substring is referenced from the
  \<^verbatim>\<open>substrings\<close> list, from every encoding that calls it and from the subroutine tables.
  The model keeps them in a store from references to records; lists and encodings hold
  references. The slots \<^verbatim>\<open>chstrings\<close> and \<^verbatim>\<open>cost_map\<close> point at the two tables shared by all
  objects and are passed to the functions that read them. \<^verbatim>\<open>cost\<close> is the cached slot
  \<^verbatim>\<open>__cost\<close>: \<^verbatim>\<open>get_substrings\<close> calls \<^verbatim>\<open>subr_saving()\<close> on every candidate it creates, which
  fills the cache, so every later \<^verbatim>\<open>cost()\<close> returns the cached number.
  \<^verbatim>\<open>_usages\<close> and \<^verbatim>\<open>_encoding\<close> are set for every substring by \<^verbatim>\<open>iterative_encode\<close> before
  they are first read. The slots that are tested with \<^verbatim>\<open>hasattr\<close> or may be missing when
  read (\<^verbatim>\<open>_position\<close>, \<^verbatim>\<open>_max_call_depth\<close>, \<^verbatim>\<open>_program\<close>) are options.
\<close>

type_synonym ref = nat

record CandidateSubr =
  subr_length :: nat
  location :: "nat \<times> nat"
  freq :: int
  cost :: int
  usages :: int
  encoding :: "(nat \<times> ref) list"
  flatten :: bool
  fdidx :: "nat list"
  global :: bool
  position :: "nat option"
  max_call_depth :: "nat option"
  program :: "token list option"

type_synonym heap = "ref \<Rightarrow> CandidateSubr"

text \<open>\<^verbatim>\<open>CandidateSubr.__init__\<close>, with the cost that the first \<^verbatim>\<open>cost()\<close> call caches.\<close>

definition new_candidate :: "nat \<Rightarrow> nat \<times> nat \<Rightarrow> int \<Rightarrow> int \<Rightarrow> CandidateSubr" where
  "new_candidate l ref_loc fr c =
     \<lparr>subr_length = l, location = ref_loc, freq = fr, cost = c, usages = 0, encoding = [],
      flatten = False, fdidx = [], global = False, position = None, max_call_depth = None,
      program = None\<rparr>"

text \<open>\<^verbatim>\<open>value()\<close>: \<^verbatim>\<open>chstrings[location[0]][location[1]:location[1] + length]\<close>.\<close>

definition subr_value :: "nat list list \<Rightarrow> CandidateSubr \<Rightarrow> error + nat list" where
  "subr_value chstrings self =
     bind_err (py_get chstrings (fst (location self)))
       (\<lambda>cs. Inr (slice (snd (location self)) (snd (location self) + subr_length self) cs))"

text \<open>
  The first \<^verbatim>\<open>cost()\<close>: the sum of \<^verbatim>\<open>cost_map[t]\<close> over the value; any exception on the way
  is replaced by \<^verbatim>\<open>Exception('Translated token not recognized')\<close>.
\<close>

definition compute_cost :: "int list \<Rightarrow> nat list list \<Rightarrow> nat \<Rightarrow> nat \<times> nat \<Rightarrow> error + int" where
  "compute_cost cost_map chstrings l ref_loc =
     (case bind_err (subr_value chstrings (new_candidate l ref_loc 0 0))
             (\<lambda>v. map_err (py_get cost_map) v) of
        Inl e \<Rightarrow> Inl TokenNotRecognized
      | Inr cs \<Rightarrow> Inr (sum_list cs))"

text \<open>
  \<^verbatim>\<open>real_cost\<close> follows the encoding into flattened callees, recursively. The first
  argument bounds the depth of that recursion.
\<close>

fun real_cost :: "nat \<Rightarrow> heap \<Rightarrow> CandidateSubr \<Rightarrow> int \<Rightarrow> error + int" where
  "real_cost 0 h self call_cost = Inl OutOfFuel"
| "real_cost (Suc n) h self call_cost =
     bind_err
       (map_err (\<lambda>it. if \<not> flatten (h (snd it)) then Inr (- cost (h (snd it)) + call_cost)
                       else real_cost n h (h (snd it)) call_cost)
          (encoding self))
       (\<lambda>terms. Inr (cost self + sum_list terms))"

definition subr_saving ::
  "nat \<Rightarrow> heap \<Rightarrow> CandidateSubr \<Rightarrow> bool \<Rightarrow> bool \<Rightarrow> int \<Rightarrow> int \<Rightarrow> error + int" where
  "subr_saving fuel h self use_usages true_cost call_cost subr_overhead =
     (let amt = (if use_usages then usages self else freq self) in
      bind_err (if \<not> true_cost then Inr (cost self) else real_cost fuel h self call_cost)
        (\<lambda>c. Inr (c * amt - c - call_cost * amt - subr_overhead)))"

text \<open>Stable sorts: \<^verbatim>\<open>xs.sort(key=k)\<close> and \<^verbatim>\<open>xs.sort(key=k, reverse=True)\<close> on integer keys.\<close>

definition sort_asc :: "('a \<Rightarrow> int) \<Rightarrow> 'a list \<Rightarrow> 'a list" where
  "sort_asc k xs = sort_key k xs"

definition sort_desc :: "('a \<Rightarrow> int) \<Rightarrow> 'a list \<Rightarrow> 'a list" where
  "sort_desc k xs = sort_key (\<lambda>x. - k x) xs"


section \<open>\<^verbatim>\<open>SubstringFinder\<close>: suffix array, LCP array and candidates\<close>

text \<open>
  \<open>data\<close> is the corpus: one list of alphabet codes per glyph. \<^verbatim>\<open>process_chstrings\<close> appends,
  glyph after glyph, the positions \<^verbatim>\<open>(glyph_idx, x)\<close> for \<^verbatim>\<open>x in range(chstr_len)\<close> to
  \<^verbatim>\<open>self.suffixes\<close>, and adds the lengths up in \<^verbatim>\<open>self.length\<close>.
\<close>

definition initial_suffixes :: "nat list list \<Rightarrow> (nat \<times> nat) list" where
  "initial_suffixes data =
     concat (map (\<lambda>(glyph_idx, d). map (\<lambda>x. (glyph_idx, x)) [0..<length d])
               (enumerate 0 data))"

definition total_length :: "nat list list \<Rightarrow> nat" where
  "total_length data = sum_list (map length data)"

text \<open>
  \<^verbatim>\<open>get_suffixes\<close>: \<^verbatim>\<open>self.suffixes.sort(key=lambda idx: self.data[idx[0]][idx[1]:])\<close>. Python
  compares tuples of integers lexicographically, a proper prefix first, which is the order
  of lists here; \<^verbatim>\<open>list.sort\<close> is stable, as \<open>sort_key\<close> is.
\<close>

definition suffix_at :: "nat list list \<Rightarrow> nat \<times> nat \<Rightarrow> nat list" where
  "suffix_at data idx = drop (snd idx) (data ! fst idx)"

definition get_suffixes :: "nat list list \<Rightarrow> (nat \<times> nat) list" where
  "get_suffixes data = sort_key (suffix_at data) (initial_suffixes data)"

text \<open>
  \<^verbatim>\<open>get_lcp\<close>. The rank array is filled from the suffix array; then, glyph by glyph and
  token by token, the common prefix with the suffix of the previous rank is extended from
  \<open>cur_h\<close>, which is kept (less one) for the next token. When the rank is 0 nothing is
  written and \<open>cur_h\<close> is left as it is. All indices come from the suffix array and are in
  range for it (lemmas \<open>rank_array_nth\<close> and \<open>get_suffixes_valid\<close> below).
\<close>

definition set_rank :: "(nat \<times> nat) list \<Rightarrow> nat \<Rightarrow> nat list list \<Rightarrow> nat list list" where
  \<comment> \<open>\<^verbatim>\<open>glyph_idx, tok_idx = self.suffixes[i]; rank[glyph_idx][tok_idx] = i\<close>\<close>
  "set_rank sufs i rank =
     (case sufs ! i of (glyph_idx, tok_idx) \<Rightarrow>
        rank[glyph_idx := (rank ! glyph_idx)[tok_idx := i]])"

definition rank_array :: "nat list list \<Rightarrow> (nat \<times> nat) list \<Rightarrow> nat list list" where
  "rank_array data sufs =
     fold (set_rank sufs) [0..<total_length data] (map (\<lambda>d. replicate (length d) 0) data)"

function extend_h :: "nat list \<Rightarrow> nat \<Rightarrow> nat list \<Rightarrow> nat \<Rightarrow> nat \<Rightarrow> nat" where
  "extend_h last_chstring last_tidx chstring tok_idx cur_h =
     (if last_tidx + cur_h < length last_chstring \<and> tok_idx + cur_h < length chstring
         \<and> last_chstring ! (last_tidx + cur_h) = chstring ! (tok_idx + cur_h)
      then extend_h last_chstring last_tidx chstring tok_idx (cur_h + 1)
      else cur_h)"
  by pat_completeness auto
termination
  by (relation "measure (\<lambda>(last_chstring, last_tidx, chstring, tok_idx, cur_h).
        length chstring - (tok_idx + cur_h))") auto

declare extend_h.simps [simp del]

definition lcp_step ::
  "nat list list \<Rightarrow> (nat \<times> nat) list \<Rightarrow> nat list list \<Rightarrow> nat \<Rightarrow> nat \<Rightarrow> nat list \<times> nat
   \<Rightarrow> nat list \<times> nat" where
  "lcp_step data sufs rank glyph_idx tok_idx st =
     (case st of (lcp, cur_h) \<Rightarrow>
      let cur_rank = rank ! glyph_idx ! tok_idx in
      if cur_rank > 0 then
        (case sufs ! (cur_rank - 1) of (last_glidx, last_tidx) \<Rightarrow>
           let h = extend_h (data ! last_glidx) last_tidx (data ! glyph_idx) tok_idx cur_h
           in (lcp[cur_rank := h], if h > 0 then h - 1 else h))
      else (lcp, cur_h))"

definition lcp_glyph ::
  "nat list list \<Rightarrow> (nat \<times> nat) list \<Rightarrow> nat list list \<Rightarrow> nat \<Rightarrow> nat list \<Rightarrow> nat list" where
  "lcp_glyph data sufs rank glyph_idx lcp =
     fst (fold (lcp_step data sufs rank glyph_idx) [0..<length (data ! glyph_idx)] (lcp, 0))"

definition get_lcp :: "nat list list \<Rightarrow> nat list" where
  "get_lcp data =
     (let sufs = get_suffixes data; rank = rank_array data sufs
      in fold (lcp_glyph data sufs rank) [0..<length data]
           (replicate (total_length data) 0))"

text \<open>The length of the longest common prefix, by recursion; the specification side.\<close>

fun lcp_len :: "'a list \<Rightarrow> 'a list \<Rightarrow> nat" where
  "lcp_len (x # xs) (y # ys) = (if x = y then Suc (lcp_len xs ys) else 0)"
| "lcp_len xs ys = 0"

subsection \<open>\<^verbatim>\<open>get_substrings\<close>\<close>

text \<open>
  \<^verbatim>\<open>subr_saving()\<close> with all defaults reads no other object; it is called on candidates that
  are in no store yet, so the store it is given here is a blank one.
\<close>

definition no_heap :: heap where
  "no_heap = (\<lambda>r. new_candidate 0 (0, 0) 0 0)"

definition default_saving :: "CandidateSubr \<Rightarrow> error + int" where
  \<comment> \<open>\<^verbatim>\<open>substr.subr_saving()\<close>\<close>
  "default_saving substr = subr_saving 0 no_heap substr False False 5 3"

text \<open>
  The \<^verbatim>\<open>while\<close> loop of lines 383 to 396. \<open>start_indices\<close> is the deque as a list; \<^verbatim>\<open>pop()\<close>
  takes its last element. The index \<open>i\<close> and the start ranks are integers: the first push is
  \<^verbatim>\<open>(lcp[0], -1)\<close>. The candidate's cost is computed (and may raise) by the call of
  \<^verbatim>\<open>subr_saving()\<close>, which comes before the test of \<^verbatim>\<open>check_positive\<close>.
\<close>

function pop_loop ::
  "int list \<Rightarrow> nat list list \<Rightarrow> (nat \<times> nat) list \<Rightarrow> int \<Rightarrow> bool \<Rightarrow> int \<Rightarrow> nat
   \<Rightarrow> (nat \<times> int) list \<Rightarrow> CandidateSubr list
   \<Rightarrow> error + ((nat \<times> int) list \<times> CandidateSubr list)" where
  "pop_loop cost_map data sufs min_freq check_positive i min_l start_indices substrings =
     (if start_indices \<noteq> [] \<and> fst (last start_indices) > min_l then
        (case last start_indices of (l, start_idx) \<Rightarrow>
           if i - start_idx < min_freq then
             pop_loop cost_map data sufs min_freq check_positive i min_l
               (butlast start_indices) substrings
           else
             (case py_get_int sufs start_idx of
                Inl e \<Rightarrow> Inl e
              | Inr loc \<Rightarrow>
                  (case compute_cost cost_map data l loc of
                     Inl e \<Rightarrow> Inl e
                   | Inr c \<Rightarrow>
                       (case default_saving (new_candidate l loc (i - start_idx) c) of
                          Inl e \<Rightarrow> Inl e
                        | Inr sv \<Rightarrow>
                            if sv > 0 \<or> \<not> check_positive then
                              pop_loop cost_map data sufs min_freq check_positive i min_l
                                (butlast start_indices)
                                (substrings @ [new_candidate l loc (i - start_idx) c])
                            else
                              pop_loop cost_map data sufs min_freq check_positive i min_l
                                (butlast start_indices) substrings))))
      else Inr (start_indices, substrings))"
  by pat_completeness auto
termination
  by (relation "measure (\<lambda>(cost_map, data, sufs, min_freq, check_positive, i, min_l,
        start_indices, substrings). length start_indices)") auto

declare pop_loop.simps [simp del]

definition sweep_step ::
  "int list \<Rightarrow> nat list list \<Rightarrow> (nat \<times> nat) list \<Rightarrow> int \<Rightarrow> bool \<Rightarrow> int \<times> nat
   \<Rightarrow> (nat \<times> int) list \<times> CandidateSubr list
   \<Rightarrow> error + ((nat \<times> int) list \<times> CandidateSubr list)" where
  "sweep_step cost_map data sufs min_freq check_positive p st =
     (case p of (i, min_l) \<Rightarrow> case st of (start_indices, substrings) \<Rightarrow>
      bind_err (pop_loop cost_map data sufs min_freq check_positive i min_l
                  start_indices substrings)
        (\<lambda>(stack, subs).
           Inr (if stack = [] \<or> min_l > fst (last stack) then stack @ [(min_l, i - 1)]
                else stack, subs)))"

definition sweep ::
  "int list \<Rightarrow> nat list list \<Rightarrow> (nat \<times> nat) list \<Rightarrow> nat list \<Rightarrow> int \<Rightarrow> bool
   \<Rightarrow> error + ((nat \<times> int) list \<times> CandidateSubr list)" where
  \<comment> \<open>\<^verbatim>\<open>for i, min_l in enumerate(lcp)\<close>\<close>
  "sweep cost_map data sufs lcp min_freq check_positive =
     fold_err (sweep_step cost_map data sufs min_freq check_positive)
       (zip (map int [0..<length lcp]) lcp) ([], [])"

definition get_substrings ::
  "int list \<Rightarrow> nat list list \<Rightarrow> int \<Rightarrow> bool \<Rightarrow> bool \<Rightarrow> error + CandidateSubr list" where
  "get_substrings cost_map data min_freq check_positive sort_by_length =
     bind_err (sweep cost_map data (get_suffixes data) (get_lcp data) min_freq check_positive)
       (\<lambda>(stack, substrings).
          if sort_by_length then Inr (sort_asc (\<lambda>s. int (subr_length s)) substrings)
          else
            bind_err (map_err default_saving substrings)
              (\<lambda>keys. Inr (map snd (sort_desc fst (zip keys substrings)))))"

text \<open>
  The candidates that the sweep over the LCP array extracts, before any is left out: the
  same loops without the tests of \<^verbatim>\<open>min_freq\<close> and \<^verbatim>\<open>check_positive\<close>. This is the
  specification side of the claim about \<^verbatim>\<open>get_substrings\<close>.
\<close>

function pop_all ::
  "int list \<Rightarrow> nat list list \<Rightarrow> (nat \<times> nat) list \<Rightarrow> int \<Rightarrow> nat
   \<Rightarrow> (nat \<times> int) list \<Rightarrow> CandidateSubr list
   \<Rightarrow> error + ((nat \<times> int) list \<times> CandidateSubr list)" where
  "pop_all cost_map data sufs i min_l start_indices substrings =
     (if start_indices \<noteq> [] \<and> fst (last start_indices) > min_l then
        (case last start_indices of (l, start_idx) \<Rightarrow>
           (case py_get_int sufs start_idx of
              Inl e \<Rightarrow> Inl e
            | Inr loc \<Rightarrow>
                (case compute_cost cost_map data l loc of
                   Inl e \<Rightarrow> Inl e
                 | Inr c \<Rightarrow>
                     pop_all cost_map data sufs i min_l (butlast start_indices)
                       (substrings @ [new_candidate l loc (i - start_idx) c]))))
      else Inr (start_indices, substrings))"
  by pat_completeness auto
termination
  by (relation "measure (\<lambda>(cost_map, data, sufs, i, min_l, start_indices, substrings).
        length start_indices)") auto

declare pop_all.simps [simp del]

definition extract_step ::
  "int list \<Rightarrow> nat list list \<Rightarrow> (nat \<times> nat) list \<Rightarrow> int \<times> nat
   \<Rightarrow> (nat \<times> int) list \<times> CandidateSubr list
   \<Rightarrow> error + ((nat \<times> int) list \<times> CandidateSubr list)" where
  "extract_step cost_map data sufs p st =
     (case p of (i, min_l) \<Rightarrow> case st of (start_indices, substrings) \<Rightarrow>
      bind_err (pop_all cost_map data sufs i min_l start_indices substrings)
        (\<lambda>(stack, subs).
           Inr (if stack = [] \<or> min_l > fst (last stack) then stack @ [(min_l, i - 1)]
                else stack, subs)))"

definition lcp_candidates :: "int list \<Rightarrow> nat list list \<Rightarrow> error + CandidateSubr list" where
  "lcp_candidates cost_map data =
     bind_err (fold_err (extract_step cost_map data (get_suffixes data))
                 (zip (map int [0..<length (get_lcp data)]) (get_lcp data)) ([], []))
       (\<lambda>(stack, substrings). Inr substrings)"

definition saving_of :: "CandidateSubr \<Rightarrow> int" where
  \<comment> \<open>\<open>cost * amt - cost - call_cost * amt - subr_overhead\<close> with \<open>amt = freq\<close>, 5 and 3\<close>
  "saving_of s = cost s * freq s - cost s - 5 * freq s - 3"

definition kept :: "int \<Rightarrow> bool \<Rightarrow> CandidateSubr \<Rightarrow> bool" where
  "kept min_freq check_positive s =
     (freq s \<ge> min_freq \<and> (check_positive \<longrightarrow> saving_of s > 0))"

text \<open>Two glyphs that share six codes of total cost 13: a candidate whose saving is 0.\<close>

definition zero_cost_map :: "int list" where
  "zero_cost_map = [2, 1, 3, 3, 2, 2, 1, 1]"

definition zero_data :: "nat list list" where
  "zero_data = [[0, 1, 2, 3, 4, 5, 6], [0, 1, 2, 3, 4, 5, 7]]"


subsection \<open>Notions used to state the correctness of the suffix and LCP arrays\<close>

text \<open>
  The positions of the corpus; what it means to be its suffix array (sorted, complete, and
  stable: equal suffixes keep the order of their glyphs); the rank of a position; and the
  invariant of the LCP loops.
\<close>

definition positions :: "nat list list \<Rightarrow> (nat \<times> nat) set" where
  "positions data = {(g, t). g < length data \<and> t < length (data ! g)}"

definition is_suffix_array :: "nat list list \<Rightarrow> (nat \<times> nat) list \<Rightarrow> bool" where
  "is_suffix_array data sa =
     (distinct sa \<and> set sa = positions data \<and> sorted (map (suffix_at data) sa)
      \<and> (\<forall>i j. i < j \<and> j < length sa \<and> suffix_at data (sa ! i) = suffix_at data (sa ! j)
            \<longrightarrow> fst (sa ! i) < fst (sa ! j)))"

definition positions_from :: "nat \<Rightarrow> nat list list \<Rightarrow> (nat \<times> nat) list" where
  "positions_from n data =
     concat (map (\<lambda>(glyph_idx, d). map (\<lambda>x. (glyph_idx, x)) [0..<length d])
               (enumerate n data))"

definition rank_of :: "nat list list \<Rightarrow> nat \<times> nat \<Rightarrow> nat" where
  "rank_of rank p = rank ! fst p ! snd p"

definition prev_lcp :: "nat list list \<Rightarrow> (nat \<times> nat) list \<Rightarrow> nat \<times> nat \<Rightarrow> nat" where
  "prev_lcp data sa p =
     lcp_len (suffix_at data (sa ! (rank_of (rank_array data sa) p - 1))) (suffix_at data p)"

definition h_bound :: "nat list list \<Rightarrow> (nat \<times> nat) list \<Rightarrow> nat \<times> nat \<Rightarrow> nat" where
  "h_bound data sa p = (if 0 < rank_of (rank_array data sa) p then prev_lcp data sa p else 0)"

definition cells_ok ::
  "nat list list \<Rightarrow> (nat \<times> nat) list \<Rightarrow> (nat \<times> nat) set \<Rightarrow> nat list \<Rightarrow> bool" where
  "cells_ok data sa D lcp =
     (length lcp = length sa \<and> (0 < length lcp \<longrightarrow> lcp ! 0 = 0) \<and> D \<subseteq> positions data
      \<and> (\<forall>p\<in>D. 0 < rank_of (rank_array data sa) p
            \<longrightarrow> lcp ! rank_of (rank_array data sa) p = prev_lcp data sa p))"

text \<open>What every extracted candidate satisfies: it occurs at least twice, it is located at
  a position of the corpus, and its cached cost is the sum of the costs of its codes.\<close>

definition good_candidate :: "int list \<Rightarrow> nat list list \<Rightarrow> CandidateSubr \<Rightarrow> bool" where
  "good_candidate cost_map data s =
     (2 \<le> freq s \<and> location s \<in> positions data
      \<and> compute_cost cost_map data (subr_length s) (location s) = Inr (cost s))"

section \<open>\<^verbatim>\<open>Compreffor.iterative_encode\<close>: the pruning at the end of a round\<close>













section \<open>\<^verbatim>\<open>optimize_charstring\<close>: the dynamic programme\<close>

text \<open>
  Prices are Python floats, and the costs added to them are integers. The model is
  polymorphic in the type \<open>'a\<close> of these numbers: it uses only its order and its addition,
  and a parameter \<open>emb\<close> for the conversion of an integer. The theorems about it assume
  only that addition is monotone in its second argument, which holds for exact numbers
  and for correctly rounded floating-point addition alike. \<open>PosInf\<close> is \<^verbatim>\<open>float("inf")\<close>.
\<close>

datatype 'a ext = Fin 'a | PosInf

fun ext_add :: "'a::plus ext \<Rightarrow> 'a ext \<Rightarrow> 'a ext" where
  "ext_add (Fin a) (Fin b) = Fin (a + b)"
| "ext_add a b = PosInf"

fun ext_less :: "'a::linorder ext \<Rightarrow> 'a ext \<Rightarrow> bool" where
  "ext_less (Fin a) (Fin b) = (a < b)"
| "ext_less (Fin a) PosInf = True"
| "ext_less PosInf b = False"

text \<open>
  The argument is either an item of \<^verbatim>\<open>enumerate([s.value() for s in substrings])\<close>, a pair
  of an index and a tuple of codes, or a tuple of codes from \<^verbatim>\<open>data\<close>. The test at the head
  of the function (\<^verbatim>\<open>type(charstring[1]) == tuple\<close>, \<^verbatim>\<open>type(charstring[0]) == int\<close>) tells the
  two apart: the elements of a tuple of codes are integers. \<^verbatim>\<open>verbose\<close> only prints.
\<close>

datatype dp_arg = Enumerated nat "nat list" | Charstring "nat list"

fun skip_idx_of :: "dp_arg \<Rightarrow> nat option" where
  "skip_idx_of (Enumerated idx v) = Some idx"
| "skip_idx_of (Charstring v) = None"

fun charstring_of :: "dp_arg \<Rightarrow> nat list" where
  "charstring_of (Enumerated idx v) = v"
| "charstring_of (Charstring v) = v"

text \<open>
  The body of the loop over \<open>j\<close> (lines 962 to 981), on the state
  \<open>(min_option, min_enc_idx, min_enc_substr, cur_cost)\<close>. \<open>j - 1\<close> is below the length of the
  charstring and \<open>j\<close> is an index of \<open>results\<close>, by the bounds of the loops.
\<close>

definition inner_step ::
  "(int \<Rightarrow> 'a::{linorder,plus}) \<Rightarrow> int list \<Rightarrow> (nat list \<rightharpoonup> nat \<times> 'a) \<Rightarrow> nat option \<Rightarrow> nat list
   \<Rightarrow> 'a ext list \<Rightarrow> nat \<Rightarrow> nat \<Rightarrow> 'a ext \<times> nat \<times> nat option \<times> int
   \<Rightarrow> error + ('a ext \<times> nat \<times> nat option \<times> int)" where
  "inner_step emb cost_map substr_dict skip_idx cs results i j st =
     (case st of (min_option, min_enc_idx, min_enc_substr, cur_cost) \<Rightarrow>
      bind_err (py_get cost_map (cs ! (j - 1))) (\<lambda>c.
      bind_err
        (case substr_dict (slice i j cs) of
           Some substr \<Rightarrow>
             if Some (fst substr) \<noteq> skip_idx then
               Inr (ext_add (Fin (snd substr)) (results ! j), Some (fst substr))
             else if i = 0 \<and> j = length cs then
               Inr (ext_add (Fin (emb (cur_cost + c))) (results ! j), None)
             else Inl AssertionError
         | None \<Rightarrow> Inr (ext_add (Fin (emb (cur_cost + c))) (results ! j), None))
        (\<lambda>(option, substr).
           Inr (if ext_less option min_option then (option, j, substr, cur_cost + c)
                else (min_option, min_enc_idx, min_enc_substr, cur_cost + c)))))"

text \<open>The body of the loop over \<open>i\<close> (lines 957 to 985), on the three arrays.\<close>

definition outer_step ::
  "(int \<Rightarrow> 'a::{linorder,plus}) \<Rightarrow> int list \<Rightarrow> (nat list \<rightharpoonup> nat \<times> 'a) \<Rightarrow> nat option \<Rightarrow> nat list
   \<Rightarrow> nat \<Rightarrow> 'a ext list \<times> nat option list \<times> nat option list
   \<Rightarrow> error + ('a ext list \<times> nat option list \<times> nat option list)" where
  "outer_step emb cost_map substr_dict skip_idx cs i st =
     (case st of (results, next_enc_idx, next_enc_substr) \<Rightarrow>
      bind_err
        (fold_err (inner_step emb cost_map substr_dict skip_idx cs results i)
           [i + 1..<length cs + 1] (PosInf, length cs, None, 0))
        (\<lambda>(min_option, min_enc_idx, min_enc_substr, cur_cost).
           Inr (results[i := min_option], next_enc_idx[i := Some min_enc_idx],
                next_enc_substr[i := min_enc_substr])))"

definition dp_tables ::
  "(int \<Rightarrow> 'a::{linorder,plus}) \<Rightarrow> int list \<Rightarrow> (nat list \<rightharpoonup> nat \<times> 'a) \<Rightarrow> nat option \<Rightarrow> nat list
   \<Rightarrow> error + ('a ext list \<times> nat option list \<times> nat option list)" where
  "dp_tables emb cost_map substr_dict skip_idx cs =
     fold_err (outer_step emb cost_map substr_dict skip_idx cs) (rev [0..<length cs])
       (replicate (length cs + 1) (Fin (emb 0)), replicate (length cs) None,
        replicate (length cs) None)"

text \<open>
  The \<^verbatim>\<open>while cur_enc_idx < last\<close> loop (lines 991 to 999). It ends when every step moves
  forward; the first argument bounds the number of iterations. An entry of
  \<^verbatim>\<open>next_enc_idx\<close> that is still \<^verbatim>\<open>None\<close> would be used as a list index.
\<close>

fun walk ::
  "nat \<Rightarrow> nat option list \<Rightarrow> nat option list \<Rightarrow> nat \<Rightarrow> (nat \<times> nat) list
   \<Rightarrow> error + (nat \<times> nat) list" where
  "walk 0 next_enc_idx next_enc_substr cur_enc_idx enc = Inl OutOfFuel"
| "walk (Suc fuel) next_enc_idx next_enc_substr cur_enc_idx enc =
     (if cur_enc_idx < length next_enc_idx then
        (case next_enc_idx ! cur_enc_idx of
           None \<Rightarrow> Inl TypeError
         | Some nxt \<Rightarrow>
             walk fuel next_enc_idx next_enc_substr nxt
               (case next_enc_substr ! cur_enc_idx of
                  Some cur_enc_substr \<Rightarrow> enc @ [(cur_enc_idx, cur_enc_substr)]
                | None \<Rightarrow> enc))
      else Inr enc)"

text \<open>The result \<^verbatim>\<open>{"encoding": encoding, "market_cost": market_cost}\<close> is the pair.\<close>

definition optimize_charstring ::
  "(int \<Rightarrow> 'a::{linorder,plus}) \<Rightarrow> dp_arg \<Rightarrow> int list \<Rightarrow> (nat list \<rightharpoonup> nat \<times> 'a)
   \<Rightarrow> error + ((nat \<times> nat) list \<times> 'a ext)" where
  "optimize_charstring emb arg cost_map substr_dict =
     bind_err (dp_tables emb cost_map substr_dict (skip_idx_of arg) (charstring_of arg))
       (\<lambda>(results, next_enc_idx, next_enc_substr).
          bind_err (walk (Suc (length (charstring_of arg))) next_enc_idx next_enc_substr 0 [])
            (\<lambda>enc. Inr (enc, results ! 0)))"

subsection \<open>The specification side: partitions and their costs\<close>

definition tok_cost :: "int list \<Rightarrow> nat list \<Rightarrow> int" where
  "tok_cost cost_map seg = sum_list (map (\<lambda>c. cost_map ! c) seg)"

text \<open>
  The cost of one segment: its price when it is in the table under an index other than
  \<open>skip_idx\<close>, and the sum of the costs of its tokens otherwise.
\<close>

definition seg_cost ::
  "(int \<Rightarrow> 'a) \<Rightarrow> int list \<Rightarrow> (nat list \<rightharpoonup> nat \<times> 'a) \<Rightarrow> nat option \<Rightarrow> nat list \<Rightarrow> 'a" where
  "seg_cost emb cost_map substr_dict skip_idx seg =
     (case substr_dict seg of
        Some substr \<Rightarrow>
          if Some (fst substr) \<noteq> skip_idx then snd substr else emb (tok_cost cost_map seg)
      | None \<Rightarrow> emb (tok_cost cost_map seg))"

definition seg_subr :: "(nat list \<rightharpoonup> nat \<times> 'a) \<Rightarrow> nat option \<Rightarrow> nat list \<Rightarrow> nat option" where
  "seg_subr substr_dict skip_idx seg =
     (case substr_dict seg of
        Some substr \<Rightarrow> if Some (fst substr) \<noteq> skip_idx then Some (fst substr) else None
      | None \<Rightarrow> None)"




text \<open>The value of a finite entry of \<open>results\<close>, and the option that the loop computes at \<open>(i, j)\<close>.\<close>

fun fin :: "'a ext \<Rightarrow> 'a option" where
  "fin (Fin a) = Some a"
| "fin PosInf = None"

definition option_at ::
  "(int \<Rightarrow> 'a::plus) \<Rightarrow> int list \<Rightarrow> (nat list \<rightharpoonup> nat \<times> 'a) \<Rightarrow> nat option \<Rightarrow> nat list
   \<Rightarrow> 'a ext list \<Rightarrow> nat \<Rightarrow> nat \<Rightarrow> 'a ext" where
  "option_at emb cost_map substr_dict skip_idx cs results i j =
     ext_add (Fin (seg_cost emb cost_map substr_dict skip_idx (slice i j cs))) (results ! j)"

definition ext_le :: "'a::linorder ext \<Rightarrow> 'a ext \<Rightarrow> bool" where
  "ext_le a b = (\<not> ext_less b a)"

text \<open>
  What the arrays hold for position \<open>k\<close>: the chosen end \<open>j\<close> gives the minimum of all options
  at \<open>k\<close>, it is the smallest end that does, and \<open>next_enc_substr\<close> is the table index of the
  chosen segment, if it was taken from the table.
\<close>

definition choice_ok ::
  "(int \<Rightarrow> 'a::{linorder,plus}) \<Rightarrow> int list \<Rightarrow> (nat list \<rightharpoonup> nat \<times> 'a) \<Rightarrow> nat option \<Rightarrow> nat list
   \<Rightarrow> 'a ext list \<Rightarrow> nat option list \<Rightarrow> nat option list \<Rightarrow> nat \<Rightarrow> bool" where
  "choice_ok emb cost_map substr_dict skip_idx cs results next_enc_idx next_enc_substr k =
     (\<exists>j. next_enc_idx ! k = Some j \<and> k < j \<and> j \<le> length cs
        \<and> results ! k = option_at emb cost_map substr_dict skip_idx cs results k j
        \<and> next_enc_substr ! k = seg_subr substr_dict skip_idx (slice k j cs)
        \<and> (\<forall>j'. k < j' \<and> j' \<le> length cs \<longrightarrow>
              ext_le (results ! k) (option_at emb cost_map substr_dict skip_idx cs results k j'))
        \<and> (\<forall>j'. k < j' \<and> j' < j \<longrightarrow>
              ext_less (results ! k) (option_at emb cost_map substr_dict skip_idx cs results k j')))"

text \<open>
  The table that \<^verbatim>\<open>iterative_encode\<close> hands to the dynamic programme (lines 617 to 623, and
  again lines 629 to 632 of every round): for each index of \<^verbatim>\<open>enumerate(substrings)\<close>, the key
  \<^verbatim>\<open>substr.value()\<close> is given the pair of that index and of the price of the substring, a later
  index overwriting an earlier one with the same value. \<open>vals\<close> is
  \<^verbatim>\<open>[s.value() for s in substrings]\<close> and \<open>price idx\<close> the price of substring \<open>idx\<close>.
\<close>

definition build_dict :: "(nat \<Rightarrow> 'a) \<Rightarrow> nat list list \<Rightarrow> (nat list \<rightharpoonup> nat \<times> 'a)" where
  "build_dict price vals =
     fold (\<lambda>(idx, v) d. d(v \<mapsto> (idx, price idx))) (enumerate 0 vals) Map.empty"


section \<open>\<^verbatim>\<open>Compreffor.process_subrs\<close>\<close>

subsection \<open>Reachability\<close>

text \<open>
  \<^verbatim>\<open>mark_reachable\<close> recurses through the encodings without a visited set. The first
  argument bounds the depth of the recursion.
\<close>

fun mark_reachable :: "nat \<Rightarrow> ref \<Rightarrow> nat \<Rightarrow> heap \<Rightarrow> error + heap" where
  "mark_reachable 0 cand_subr fd h = Inl OutOfFuel"
| "mark_reachable (Suc n) cand_subr fd h =
     (let h1 = (if fd \<notin> set (fdidx (h cand_subr))
                then h(cand_subr := (h cand_subr)\<lparr>fdidx := fdidx (h cand_subr) @ [fd]\<rparr>)
                else h)
      in fold_err (\<lambda>it. mark_reachable n (snd it) fd) (encoding (h1 cand_subr)) h1)"

definition mark_all ::
  "nat \<Rightarrow> 'g list \<Rightarrow> (nat \<times> ref) list list \<Rightarrow> ('g \<Rightarrow> nat) option \<Rightarrow> heap \<Rightarrow> error + heap" where
  "mark_all fuel glyph_set_keys encodings fdselect h =
     (case fdselect of
        Some sel_of \<Rightarrow>
          fold_err (\<lambda>(g, enc). fold_err (\<lambda>it. mark_reachable fuel (snd it) (sel_of g)) enc)
            (zip glyph_set_keys encodings) h
      | None \<Rightarrow>
          fold_err (\<lambda>enc. fold_err (\<lambda>it. mark_reachable fuel (snd it) 0) enc) encodings h)"

subsection \<open>Survivors and bad substrings\<close>

definition true_saving :: "nat \<Rightarrow> heap \<Rightarrow> ref \<Rightarrow> error + int" where
  \<comment> \<open>\<^verbatim>\<open>s.subr_saving(use_usages=True, true_cost=True)\<close>\<close>
  "true_saving fuel h s = subr_saving fuel h (h s) True True 5 3"

definition is_survivor :: "nat \<Rightarrow> heap \<Rightarrow> ref \<Rightarrow> error + bool" where
  "is_survivor fuel h s =
     (if usages (h s) > 0 \<and> fdidx (h s) \<noteq> []
      then bind_err (true_saving fuel h s) (\<lambda>v. Inr (v > 0)) else Inr False)"

definition is_bad :: "nat \<Rightarrow> heap \<Rightarrow> ref \<Rightarrow> error + bool" where
  "is_bad fuel h s =
     (if usages (h s) = 0 \<or> fdidx (h s) = []
      then Inr True else bind_err (true_saving fuel h s) (\<lambda>v. Inr (v \<le> 0)))"

definition set_flatten :: "ref list \<Rightarrow> heap \<Rightarrow> heap" where
  \<comment> \<open>\<^verbatim>\<open>map(set_flatten, xs)\<close>\<close>
  "set_flatten xs h = fold (\<lambda>s h. h(s := (h s)\<lparr>flatten := True\<rparr>)) xs h"

subsection \<open>Budgeted assignment\<close>

definition test_call_cost :: "heap \<Rightarrow> ref \<Rightarrow> ref list \<Rightarrow> nat" where
  "test_call_cost h subr subrs =
     (if length subrs \<ge> 2263 \<and> usages (h (subrs ! 2262)) \<ge> usages (h subr) then 3
      else if length subrs \<ge> 215 \<and> usages (h (subrs ! 214)) \<ge> usages (h subr) then 2
      else 1)"

definition insert_by_usage :: "heap \<Rightarrow> ref \<Rightarrow> ref list \<Rightarrow> ref list" where
  "insert_by_usage h subr subrs = sort_desc (\<lambda>s. usages (h s)) (subrs @ [subr])"

definition set_global :: "ref \<Rightarrow> heap \<Rightarrow> heap" where
  "set_global subr h = h(subr := (h subr)\<lparr>global := True\<rparr>)"

text \<open>
  The \<^verbatim>\<open>while\<close> loop of lines 757 to 791. \<open>subrs\<close> is the Python list: the loop takes its
  last element. \<open>lsub_index\<close> is an alias of \<^verbatim>\<open>lsubrs[subr._fdidx[0]]\<close>, so inserting into
  it updates that entry of \<open>lsubrs\<close>.
\<close>

function assign_loop ::
  "int \<Rightarrow> heap \<Rightarrow> ref list \<Rightarrow> ref list list \<Rightarrow> ref list \<Rightarrow> ref list
   \<Rightarrow> error + (heap \<times> ref list \<times> ref list list \<times> ref list \<times> ref list)" where
  "assign_loop subr_limit h gsubrs lsubrs bad_substrings subrs =
     (if subrs \<noteq> [] \<and> (list_ex (\<lambda>s. int (length s) < subr_limit) lsubrs
                        \<or> int (length gsubrs) < subr_limit) then
        (let subr = last subrs; rest = butlast subrs in
         if length (fdidx (h subr)) = 1 then
           (case py_get lsubrs (fdidx (h subr) ! 0) of
              Inl e \<Rightarrow> Inl e
            | Inr lsub_index \<Rightarrow>
                if int (length gsubrs) < subr_limit then
                  if int (length lsub_index) < subr_limit then
                    (if test_call_cost h subr gsubrs < test_call_cost h subr lsub_index then
                       assign_loop subr_limit (set_global subr h) (insert_by_usage h subr gsubrs)
                         lsubrs bad_substrings rest
                     else
                       assign_loop subr_limit h gsubrs
                         (lsubrs[fdidx (h subr) ! 0 := insert_by_usage h subr lsub_index])
                         bad_substrings rest)
                  else
                    assign_loop subr_limit (set_global subr h) (insert_by_usage h subr gsubrs)
                      lsubrs bad_substrings rest
                else if int (length lsub_index) < subr_limit then
                  assign_loop subr_limit h gsubrs
                    (lsubrs[fdidx (h subr) ! 0 := insert_by_usage h subr lsub_index])
                    bad_substrings rest
                else
                  assign_loop subr_limit h gsubrs lsubrs (bad_substrings @ [subr]) rest)
         else
           (if int (length gsubrs) < subr_limit then
              assign_loop subr_limit (set_global subr h) (insert_by_usage h subr gsubrs)
                lsubrs bad_substrings rest
            else
              assign_loop subr_limit h gsubrs lsubrs (bad_substrings @ [subr]) rest))
      else Inr (h, gsubrs, lsubrs, bad_substrings, subrs))"
  by pat_completeness auto
termination
  by (relation "measure (\<lambda>(subr_limit, h, gsubrs, lsubrs, bad_substrings, subrs). length subrs)")
    auto

declare assign_loop.simps [simp del]

text \<open>
  Lines 743 to 795: the survivors, the bad substrings, the sort by saving, the loop, and
  then \<^verbatim>\<open>bad_substrings.extend([s[1] for s in subrs])\<close>. The elements of \<open>subrs\<close> are
  \<^verbatim>\<open>CandidateSubr\<close> objects, which define \<^verbatim>\<open>__len__\<close> but no \<^verbatim>\<open>__getitem__\<close>: \<^verbatim>\<open>s[1]\<close> raises
  \<^verbatim>\<open>TypeError\<close> for the first leftover element. The sort computes every key once, before
  it compares any.
\<close>

definition assign_stage ::
  "nat \<Rightarrow> int \<Rightarrow> nat \<Rightarrow> ref list \<Rightarrow> heap
   \<Rightarrow> error + (heap \<times> ref list \<times> ref list list \<times> ref list)" where
  "assign_stage fuel subr_limit fdlen substrings h =
     bind_err (filter_err (is_survivor fuel h) substrings) (\<lambda>subrs.
     bind_err (filter_err (is_bad fuel h) substrings) (\<lambda>bad_substrings.
     let h1 = set_flatten bad_substrings h in
     bind_err (map_err (true_saving fuel h1) subrs) (\<lambda>keys.
     let sorted_subrs = map snd (sort_asc fst (zip keys subrs)) in
     bind_err (assign_loop subr_limit h1 [] (replicate fdlen []) bad_substrings sorted_subrs)
       (\<lambda>(h2, gsubrs, lsubrs, bad2, leftover).
          if leftover \<noteq> [] then Inl TypeError
          else Inr (set_flatten bad2 h2, gsubrs, lsubrs, bad2)))))"

subsection \<open>Nesting depth\<close>

text \<open>
  \<^verbatim>\<open>increment_subr_depth\<close> and its \<^verbatim>\<open>while len(callees)\<close> loop. \<open>callees\<close> is the deque as a
  list; \<^verbatim>\<open>pop()\<close> takes its last element and \<^verbatim>\<open>extend\<close> appends. The first argument bounds
  the number of nested calls and loop iterations.
\<close>

definition depth_below :: "heap \<Rightarrow> ref \<Rightarrow> nat \<Rightarrow> bool" where
  \<comment> \<open>\<^verbatim>\<open>not hasattr(subr, "_max_call_depth") or subr._max_call_depth < depth\<close>\<close>
  "depth_below h subr depth =
     (case max_call_depth (h subr) of None \<Rightarrow> True | Some d \<Rightarrow> d < depth)"

fun increment_subr_depth :: "nat \<Rightarrow> ref \<Rightarrow> nat \<Rightarrow> heap \<Rightarrow> error + heap"
  and callees_loop :: "nat \<Rightarrow> ref list \<Rightarrow> nat \<Rightarrow> heap \<Rightarrow> error + heap" where
  "increment_subr_depth 0 subr depth h = Inl OutOfFuel"
| "increment_subr_depth (Suc n) subr depth h =
     (let h1 = (if depth_below h subr depth
                then h(subr := (h subr)\<lparr>max_call_depth := Some depth\<rparr>) else h)
      in callees_loop n (map snd (encoding (h1 subr))) depth h1)"
| "callees_loop 0 callees depth h = Inl OutOfFuel"
| "callees_loop (Suc n) callees depth h =
     (if callees = [] then Inr h
      else
        (let next_subr = last callees; rest = butlast callees in
         if flatten (h next_subr) then
           callees_loop n (rest @ map snd (encoding (h next_subr))) depth h
         else if depth_below h next_subr (depth + 1) then
           (case increment_subr_depth n next_subr (depth + 1) h of
              Inl e \<Rightarrow> Inl e
            | Inr h' \<Rightarrow> callees_loop n rest depth h')
         else callees_loop n rest depth h))"

definition calc_nesting :: "nat \<Rightarrow> ref list \<Rightarrow> heap \<Rightarrow> error + heap" where
  "calc_nesting fuel subrs h =
     fold_err (\<lambda>subr h. if max_call_depth (h subr) = None
                         then increment_subr_depth fuel subr 1 h else Inr h) subrs h"

definition too_deep :: "int \<Rightarrow> heap \<Rightarrow> ref \<Rightarrow> error + bool" where
  \<comment> \<open>\<^verbatim>\<open>s._max_call_depth > nest_limit\<close>\<close>
  "too_deep nest_limit h s =
     (case max_call_depth (h s) of None \<Rightarrow> Inl AttributeError
      | Some d \<Rightarrow> Inr (int d > nest_limit))"

definition not_too_deep :: "int \<Rightarrow> heap \<Rightarrow> ref \<Rightarrow> error + bool" where
  \<comment> \<open>\<^verbatim>\<open>s._max_call_depth <= nest_limit\<close>\<close>
  "not_too_deep nest_limit h s =
     (case max_call_depth (h s) of None \<Rightarrow> Inl AttributeError
      | Some d \<Rightarrow> Inr (int d \<le> nest_limit))"

text \<open>Lines 798 to 807.\<close>

definition nesting_stage ::
  "nat \<Rightarrow> int \<Rightarrow> heap \<times> ref list \<times> ref list list \<times> ref list
   \<Rightarrow> error + (heap \<times> ref list \<times> ref list list \<times> ref list)" where
  "nesting_stage fuel nest_limit st =
     (case st of (h, gsubrs, lsubrs, bad_substrings) \<Rightarrow>
     bind_err (calc_nesting fuel gsubrs h) (\<lambda>h1.
     bind_err (fold_err (calc_nesting fuel) lsubrs h1) (\<lambda>h2.
     bind_err (filter_err (too_deep nest_limit h2) (concat lsubrs)) (\<lambda>too_nested_l.
     bind_err (filter_err (too_deep nest_limit h2) gsubrs) (\<lambda>too_nested_g.
     let too_nested = too_nested_l @ too_nested_g;
         h3 = set_flatten too_nested h2 in
     bind_err (map_err (filter_err (not_too_deep nest_limit h3)) lsubrs) (\<lambda>lsubrs'.
     bind_err (filter_err (not_too_deep nest_limit h3) gsubrs) (\<lambda>gsubrs'.
       Inr (h3, gsubrs', lsubrs', bad_substrings @ too_nested))))))))"


subsection \<open>Relations between stores, used to state what a stage leaves unchanged\<close>

definition placed :: "ref list \<Rightarrow> ref list list \<Rightarrow> ref set" where
  "placed gsubrs lsubrs = set gsubrs \<union> \<Union> (set ` set lsubrs)"

definition same_nesting :: "heap \<Rightarrow> heap \<Rightarrow> bool" where
  "same_nesting h h' =
     (\<forall>s. max_call_depth (h' s) = max_call_depth (h s) \<and> flatten (h' s) = flatten (h s))"

definition depth_kept :: "heap \<Rightarrow> heap \<Rightarrow> bool" where
  "depth_kept h h' =
     (\<forall>s. (max_call_depth (h s) \<noteq> None \<longrightarrow> max_call_depth (h' s) \<noteq> None)
        \<and> flatten (h' s) = flatten (h s))"

subsection \<open>Bias-aware reordering\<close>

text \<open>
  Modelled from the spec: \<^verbatim>\<open>psCharStrings.calcSubrBias\<close> belongs to fontTools and is not in
  the repository. Section 4.5 of the spec: the bias is 107 for a table of fewer than 1240
  entries, 1131 for fewer than 33900, and 32768 otherwise.
\<close>

definition calcSubrBias :: "'a list \<Rightarrow> int" where
  "calcSubrBias subrs =
     (if length subrs < 1240 then 107 else if length subrs < 33900 then 1131 else 32768)"

text \<open>Lines 821 to 827 for one table: the sort by usages and the rearrangement.\<close>

definition sort_by_usages :: "heap \<Rightarrow> ref list \<Rightarrow> ref list" where
  "sort_by_usages h subr_arr = sort_desc (\<lambda>s. usages (h s)) subr_arr"

definition rearrange :: "int \<Rightarrow> 'a list \<Rightarrow> 'a list" where
  "rearrange bias subr_arr =
     (if bias = 1131 then
        slice 216 1240 subr_arr @ slice 0 216 subr_arr @ drop 1240 subr_arr
      else if bias = 32768 then
        slice 2264 33901 subr_arr @ slice 216 1240 subr_arr @ slice 0 216 subr_arr
          @ slice 1240 2264 subr_arr @ drop 33901 subr_arr
      else subr_arr)"

definition update_position :: "nat \<times> ref \<Rightarrow> heap \<Rightarrow> heap" where
  "update_position p h = h(snd p := (h (snd p))\<lparr>position := Some (fst p)\<rparr>)"

definition update_positions :: "ref list \<Rightarrow> heap \<Rightarrow> heap" where
  \<comment> \<open>\<^verbatim>\<open>map(update_position, range(len(subr_arr)), subr_arr)\<close>\<close>
  "update_positions subr_arr h = fold update_position (enumerate 0 subr_arr) h"

definition reorder_table :: "int \<Rightarrow> ref list \<Rightarrow> heap \<Rightarrow> ref list \<times> heap" where
  "reorder_table bias subr_arr h =
     (let arr = rearrange bias (sort_by_usages h subr_arr) in (arr, update_positions arr h))"

fun reorder_tables :: "ref list list \<Rightarrow> heap \<Rightarrow> ref list list \<times> heap" where
  "reorder_tables [] h = ([], h)"
| "reorder_tables (subr_arr # arrs) h =
     (case reorder_table (calcSubrBias subr_arr) subr_arr h of
        (arr, h1) \<Rightarrow> (case reorder_tables arrs h1 of (arrs', h2) \<Rightarrow> (arr # arrs', h2)))"

subsection \<open>Program emission\<close>

text \<open>\<^verbatim>\<open>xs[a:b] = ys\<close> for integers \<open>a\<close> and \<open>b\<close> of either sign, as CPython normalises them.\<close>

definition clamp_index :: "int \<Rightarrow> nat \<Rightarrow> nat" where
  "clamp_index i n = (if i < 0 then nat (int n + i) else min (nat i) n)"

definition slice_assign :: "'a list \<Rightarrow> int \<Rightarrow> int \<Rightarrow> 'a list \<Rightarrow> 'a list" where
  "slice_assign xs a b ys =
     (let lo = clamp_index a (length xs); hi = max lo (clamp_index b (length xs))
      in take lo xs @ ys @ drop hi xs)"

text \<open>
  One iteration of the loop of \<^verbatim>\<open>update_program\<close>, on the pair of the program and the
  running \<open>offset\<close>. \<open>fd\<close> is the parameter \<^verbatim>\<open>fdidx\<close>, \<open>None\<close> for a global context.
\<close>

definition update_item ::
  "heap \<Rightarrow> int \<Rightarrow> int list \<Rightarrow> nat option \<Rightarrow> nat \<times> ref \<Rightarrow> token list \<times> int
   \<Rightarrow> error + (token list \<times> int)" where
  "update_item h gbias lbias_arr fd item st =
     (case st of (prog, offset) \<Rightarrow>
      let subr = h (snd item);
          a = int (fst item) - offset;
          b = int (fst item) + int (subr_length subr) - offset in
      if flatten subr then
        (case program subr of
           None \<Rightarrow> Inl AttributeError
         | Some body \<Rightarrow>
             Inr (slice_assign prog a b body,
                  offset + (int (subr_length subr) - int (length body))))
      else
        (case position subr of
           None \<Rightarrow> Inl AssertionError
         | Some pos \<Rightarrow>
             if global subr then
               Inr (slice_assign prog a b [TInt (int pos - gbias), TStr ''callgsubr''],
                    offset + (int (subr_length subr) - 2))
             else if length (fdidx subr) \<noteq> 1 then Inl AssertionError
             else if \<not> (fd = None \<or> fd = Some (fdidx subr ! 0)) then Inl AssertionError
             else
               (case py_get lbias_arr (fdidx subr ! 0) of
                  Inl e \<Rightarrow> Inl e
                | Inr bias \<Rightarrow>
                    Inr (slice_assign prog a b [TInt (int pos - bias), TStr ''callsubr''],
                         offset + (int (subr_length subr) - 2)))))"

definition update_program ::
  "heap \<Rightarrow> token list \<Rightarrow> (nat \<times> ref) list \<Rightarrow> int \<Rightarrow> int list \<Rightarrow> nat option
   \<Rightarrow> error + token list" where
  "update_program h prog enc gbias lbias_arr fd =
     bind_err (fold_err (update_item h gbias lbias_arr fd) enc (prog, 0)) (\<lambda>st. Inr (fst st))"

text \<open>\<^verbatim>\<open>[rev_keymap[tok] for tok in subr.value()]\<close>\<close>

definition raw_program :: "nat list list \<Rightarrow> token list \<Rightarrow> CandidateSubr \<Rightarrow> error + token list" where
  "raw_program chstrings rev_keymap self =
     bind_err (subr_value chstrings self) (\<lambda>v. map_err (py_get rev_keymap) v)"

text \<open>The body of the loop of lines 830 to 837, for one flattened substring.\<close>

definition emit_flattened ::
  "nat list list \<Rightarrow> token list \<Rightarrow> int \<Rightarrow> int list \<Rightarrow> ref \<Rightarrow> heap \<Rightarrow> error + heap" where
  "emit_flattened chstrings rev_keymap gbias lbias subr h =
     (if length (fdidx (h subr)) > 0 then
        bind_err (raw_program chstrings rev_keymap (h subr)) (\<lambda>prog.
        bind_err (update_program h prog (encoding (h subr)) gbias lbias None) (\<lambda>prog1.
        bind_err (expand_hintmask prog1) (\<lambda>prog2.
          Inr (h(subr := (h subr)\<lparr>program := Some prog2\<rparr>)))))
      else Inr h)"

text \<open>The body of the loop of lines 841 to 847, for one placed subroutine.\<close>

definition emit_placed ::
  "nat list list \<Rightarrow> token list \<Rightarrow> int \<Rightarrow> int list \<Rightarrow> nat option \<Rightarrow> ref \<Rightarrow> heap
   \<Rightarrow> error + heap" where
  "emit_placed chstrings rev_keymap gbias lbias sel subr h =
     bind_err (raw_program chstrings rev_keymap (h subr)) (\<lambda>prog.
     if prog = [] then Inl IndexError
     else
       (let prog0 = (if last prog \<noteq> TStr ''endchar'' \<and> last prog \<noteq> TStr ''return''
                     then prog @ [TStr ''return''] else prog) in
        bind_err (update_program h prog0 (encoding (h subr)) gbias lbias sel) (\<lambda>prog1.
        bind_err (expand_hintmask prog1) (\<lambda>prog2.
          Inr (h(subr := (h subr)\<lparr>program := Some prog2\<rparr>))))))"

text \<open>Lines 813 to 852: biases, reordering, positions, and the two emission loops.\<close>

definition emission_stage ::
  "nat list list \<Rightarrow> token list \<Rightarrow> nat \<Rightarrow> heap \<times> ref list \<times> ref list list \<times> ref list
   \<Rightarrow> error + (heap \<times> ref list \<times> ref list list)" where
  "emission_stage chstrings rev_keymap fdlen st =
     (case st of (h, gsubrs0, lsubrs0, bad_substrings) \<Rightarrow>
      let gbias = calcSubrBias gsubrs0;
          lbias = map calcSubrBias lsubrs0 in
      case reorder_tables (gsubrs0 # lsubrs0) h of
        (tables, h1) \<Rightarrow>
          bind_err (fold_err (emit_flattened chstrings rev_keymap gbias lbias)
                      (sort_asc (\<lambda>s. int (subr_length (h1 s))) bad_substrings) h1) (\<lambda>h2.
          bind_err (fold_err
                      (\<lambda>(subr_arr, sel). fold_err (emit_placed chstrings rev_keymap gbias lbias sel)
                         subr_arr)
                      (zip tables (None # map Some [0..<fdlen])) h2) (\<lambda>h3.
            Inr (h3, hd tables, tl tables))))"

definition process_subrs ::
  "nat \<Rightarrow> nat list list \<Rightarrow> 'g list \<Rightarrow> (nat \<times> ref) list list \<Rightarrow> nat \<Rightarrow> ('g \<Rightarrow> nat) option
   \<Rightarrow> ref list \<Rightarrow> token list \<Rightarrow> int \<Rightarrow> int \<Rightarrow> heap
   \<Rightarrow> error + (heap \<times> ref list \<times> ref list list)" where
  "process_subrs fuel chstrings glyph_set_keys encodings fdlen fdselect substrings rev_keymap
     subr_limit nest_limit h =
     bind_err (mark_all fuel glyph_set_keys encodings fdselect h) (\<lambda>h1.
     bind_err (assign_stage fuel subr_limit fdlen substrings h1) (\<lambda>st1.
     bind_err (nesting_stage fuel nest_limit st1) (\<lambda>st2.
       emission_stage chstrings rev_keymap fdlen st2)))"

text \<open>
  The order that section 4.5 of the spec words for a table of bias 32768: the entries
  \<open>[2264..33900)\<close>, then \<open>[216..1240)\<close>, then \<open>[0..216)\<close>, then \<open>[1240..2264)\<close>, then the
  remainder. It is compared with \<open>rearrange\<close>, which is the code.
\<close>

definition claimed_order_32768 :: "'a list \<Rightarrow> 'a list" where
  "claimed_order_32768 s =
     slice 2264 33900 s @ slice 216 1240 s @ slice 0 216 s @ slice 1240 2264 s @ drop 33900 s"

text \<open>A store in which every substring has length 20, cost 20 and two usages.\<close>

definition uniform_heap :: heap where
  "uniform_heap = (\<lambda>r. (new_candidate 20 (0, 0) 2 20)\<lparr>usages := 2\<rparr>)"


section \<open>A font with three nested substrings\<close>

text \<open>
  Four glyphs over an alphabet of 28 integer operands of 3 bytes each. Substring 0
  (20 codes, at glyph 0 offset 1) occurs in glyphs 0 and 1 and contains substring 1
  (14 codes), which also occurs in glyph 2 and contains substring 2 (8 codes), which also
  occurs in glyph 3. The store is the state after the last round of \<^verbatim>\<open>iterative_encode\<close>:
  each substring is used twice, substring 0 calls 1 at offset 3, and 1 calls 2 at offset 3.
\<close>

definition nested_rev_keymap :: "token list" where
  "nested_rev_keymap = map (\<lambda>i. TInt (2000 + int i)) [0..<28]"

definition nested_data :: "nat list list" where
  "nested_data =
     [[20, 14, 15, 16, 8, 9, 10, 0, 1, 2, 3, 4, 5, 6, 7, 11, 12, 13, 17, 18, 19, 21],
      [22, 14, 15, 16, 8, 9, 10, 0, 1, 2, 3, 4, 5, 6, 7, 11, 12, 13, 17, 18, 19, 23],
      [24, 8, 9, 10, 0, 1, 2, 3, 4, 5, 6, 7, 11, 12, 13, 25],
      [26, 0, 1, 2, 3, 4, 5, 6, 7, 27]]"

definition nested_heap :: heap where
  "nested_heap = (\<lambda>r.
     if r = 0 then (new_candidate 20 (0, 1) 2 60)\<lparr>usages := 2, encoding := [(3, 1)]\<rparr>
     else if r = 1 then (new_candidate 14 (0, 4) 3 42)\<lparr>usages := 2, encoding := [(3, 2)]\<rparr>
     else (new_candidate 8 (0, 7) 4 24)\<lparr>usages := 2\<rparr>)"

definition nested_encodings :: "(nat \<times> ref) list list" where
  "nested_encodings = [[(1, 0)], [(1, 0)], [(1, 1)], [(1, 2)]]"

definition nested_run :: "int \<Rightarrow> int \<Rightarrow> error + (heap \<times> ref list \<times> ref list list)" where
  "nested_run subr_limit nest_limit =
     process_subrs 10 nested_data [0, 1, 2, 3 :: nat] nested_encodings 1 None [0, 1, 2]
       nested_rev_keymap subr_limit nest_limit nested_heap"

section \<open>Facts about the error plumbing\<close>

lemma bind_err_Inr: "bind_err m f = Inr y \<Longrightarrow> \<exists>x. m = Inr x \<and> f x = Inr y"
  by (cases m) (auto simp: bind_err_def)

lemma bind_err_simps [simp]: "bind_err (Inr x) f = f x" "bind_err (Inl e) f = Inl e"
  by (simp_all add: bind_err_def)

lemma map_err_Inr: "map_err f xs = Inr ys \<Longrightarrow> map f xs = map Inr ys"
  by (induction xs arbitrary: ys) (auto split: sum.splits)

lemma map_err_Inr_elem: "map_err f xs = Inr ys \<Longrightarrow> x \<in> set xs \<Longrightarrow> \<exists>y. f x = Inr y"
  by (induction xs arbitrary: ys) (auto split: sum.splits)

lemma map_err_Inl: "map_err f xs = Inl e \<Longrightarrow> \<exists>x\<in>set xs. f x = Inl e"
  by (induction xs) (auto split: sum.splits)

lemma filter_err_Inr:
  assumes "filter_err p xs = Inr ys"
  shows "ys = filter (\<lambda>x. p x = Inr True) xs"
proof -
  obtain bs where bs: "map_err p xs = Inr bs" and ys: "ys = map fst (filter snd (zip xs bs))"
    using assms by (auto simp: filter_err_def dest!: bind_err_Inr)
  have "map p xs = map Inr bs" using bs by (rule map_err_Inr)
  then have "map fst (filter snd (zip xs bs)) = filter (\<lambda>x. p x = Inr True) xs"
  proof (induction xs arbitrary: bs)
    case Nil
    then show ?case by simp
  next
    case (Cons x xs)
    then obtain b bs' where "bs = b # bs'" by (cases bs) auto
    then show ?case using Cons by auto
  qed
  then show ?thesis using ys by simp
qed

lemma filter_err_Inr_elem: "filter_err p xs = Inr ys \<Longrightarrow> x \<in> set xs \<Longrightarrow> \<exists>b. p x = Inr b"
  by (cases "map_err p xs") (auto simp: filter_err_def dest: map_err_Inr_elem)

lemma filter_err_Inl: "filter_err p xs = Inl e \<Longrightarrow> \<exists>x\<in>set xs. p x = Inl e"
  by (cases "map_err p xs") (auto simp: filter_err_def dest: map_err_Inl)

lemma filter_err_total: "\<forall>x\<in>set xs. \<exists>b. p x = Inr b \<Longrightarrow> \<exists>ys. filter_err p xs = Inr ys"
  using filter_err_Inl [of p xs] by (cases "filter_err p xs") auto

lemma map_filter_err_Inr:
  assumes "map_err (filter_err p) xss = Inr yss"
  shows "yss = map (filter (\<lambda>x. p x = Inr True)) xss"
proof -
  have "map (filter_err p) xss = map Inr yss" using assms by (rule map_err_Inr)
  then show ?thesis
  proof (induction xss arbitrary: yss)
    case Nil
    then show ?case by simp
  next
    case (Cons xs xss)
    then obtain ys yss' where "yss = ys # yss'" by (cases yss) auto
    then show ?case using Cons filter_err_Inr [of p xs ys] by auto
  qed
qed

lemma fold_err_invariant:
  assumes "fold_err f xs s = Inr s'" and "P s"
    and "\<And>x t t'. x \<in> set xs \<Longrightarrow> P t \<Longrightarrow> f x t = Inr t' \<Longrightarrow> P t'"
  shows "P s'"
  using assms
proof (induction xs arbitrary: s)
  case Nil
  then show ?case by simp
next
  case (Cons x xs)
  from Cons.prems(1) obtain t where t: "f x s = Inr t" and r: "fold_err f xs t = Inr s'"
    by (auto split: sum.splits)
  have "P t" using Cons.prems(2,3) t by auto
  then show ?case using Cons.IH [OF r] Cons.prems(3) by auto
qed

lemma fold_err_error:
  assumes "fold_err f xs s = Inl e" and "\<And>x t. x \<in> set xs \<Longrightarrow> f x t = Inl e \<Longrightarrow> Q"
  shows Q
  using assms
proof (induction xs arbitrary: s)
  case Nil
  then show ?case by simp
next
  case (Cons x xs)
  show ?case
  proof (cases "f x s")
    case (Inl e')
    then show ?thesis using Cons.prems by auto
  next
    case (Inr t)
    then have "fold_err f xs t = Inl e" using Cons.prems(1) by simp
    then show ?thesis using Cons.IH Cons.prems(2) by auto
  qed
qed



section \<open>Hint masks: collapsing and expanding are inverse\<close>

lemma collapse_loop_collapsed:
  "hintmask_paired rest \<Longrightarrow> collapse_loop (length pre) (pre @ rest) = Inr (pre @ collapsed rest)"
proof (induction rest arbitrary: pre rule: collapsed.induct)
  case 1
  show ?case by (subst collapse_loop.simps) simp
next
  case (2 t)
  then have "collapse_loop (length pre) (pre @ [t]) = collapse_loop (Suc (length pre)) (pre @ [t])"
    by (subst collapse_loop.simps) simp
  also have "\<dots> = Inr (pre @ [t])"
    by (subst collapse_loop.simps) simp
  finally show ?case by simp
next
  case (3 t m ts)
  show ?case
  proof (cases "is_mask_op t")
    case True
    have "collapse_loop (length pre) (pre @ t # m # ts)
        = collapse_loop (length (pre @ [TPair t m])) ((pre @ [TPair t m]) @ ts)"
      using True by (subst collapse_loop.simps) (simp add: nth_append)
    also have "\<dots> = Inr ((pre @ [TPair t m]) @ collapsed ts)"
      using 3(1) [OF True, of "pre @ [TPair t m]"] 3(3) True by simp
    finally show ?thesis using True by simp
  next
    case False
    have "collapse_loop (length pre) (pre @ t # m # ts)
        = collapse_loop (length (pre @ [t])) ((pre @ [t]) @ m # ts)"
      using False by (subst collapse_loop.simps) (simp add: nth_append)
    also have "\<dots> = Inr ((pre @ [t]) @ collapsed (m # ts))"
      using 3(2) [OF False, of "pre @ [t]"] 3(3) False by simp
    finally show ?thesis using False by simp
  qed
qed

lemma expand_loop_collapsed:
  "hintmask_paired rest \<Longrightarrow> \<forall>t\<in>set rest. \<not> is_tuple t \<Longrightarrow>
   expand_loop (length pre) (pre @ collapsed rest) = Inr (pre @ rest)"
proof (induction rest arbitrary: pre rule: collapsed.induct)
  case 1
  show ?case by (subst expand_loop.simps) simp
next
  case (2 t)
  then have nt: "\<not> is_tuple t" by simp
  have "expand_loop (length pre) (pre @ [t]) = expand_loop (Suc (length pre)) (pre @ [t])"
    using nt by (subst expand_loop.simps) (cases t; simp)
  also have "\<dots> = Inr (pre @ [t])"
    by (subst expand_loop.simps) simp
  finally show ?case by simp
next
  case (3 t m ts)
  from 3(4) have nt: "\<not> is_tuple t" and nm: "\<not> is_tuple m"
    and nts: "\<forall>t\<in>set ts. \<not> is_tuple t" by simp_all
  show ?case
  proof (cases "is_mask_op t")
    case True
    have "expand_loop (length pre) (pre @ TPair t m # collapsed ts)
        = expand_loop (Suc (length pre)) (pre @ t # m # collapsed ts)"
      using True by (subst expand_loop.simps) simp
    also have "\<dots> = expand_loop (length (pre @ [t, m])) ((pre @ [t, m]) @ collapsed ts)"
      using nm by (subst expand_loop.simps) (cases m; simp add: nth_append)
    also have "\<dots> = Inr ((pre @ [t, m]) @ ts)"
      using 3(1) [OF True, of "pre @ [t, m]"] 3(3) True nts by simp
    finally show ?thesis using True by simp
  next
    case False
    have "expand_loop (length pre) (pre @ t # collapsed (m # ts))
        = expand_loop (length (pre @ [t])) ((pre @ [t]) @ collapsed (m # ts))"
      using nt by (subst expand_loop.simps) (cases t; simp)
    also have "\<dots> = Inr ((pre @ [t]) @ m # ts)"
      using 3(2) [OF False, of "pre @ [t]"] 3(3) 3(4) False by simp
    finally show ?thesis using False by simp
  qed
qed

lemma collapse_hintmask_collapsed:
  "hintmask_paired prog \<Longrightarrow> collapse_hintmask prog = Inr (collapsed prog)"
  using collapse_loop_collapsed [of prog "[]"] by (simp add: collapse_hintmask_def)

lemma expand_hintmask_collapsed:
  "hintmask_paired prog \<Longrightarrow> \<forall>t\<in>set prog. \<not> is_tuple t \<Longrightarrow>
   expand_hintmask (collapsed prog) = Inr prog"
  using expand_loop_collapsed [of prog "[]"] by (simp add: expand_hintmask_def)

text \<open>
  Claim C9. For every program in which each \<^verbatim>\<open>hintmask\<close>/\<^verbatim>\<open>cntrmask\<close> token is immediately
  followed by its mask-bytes token (a decompiled program, which holds no tuple),
  \<^verbatim>\<open>collapse_hintmask\<close> returns a program \<open>q\<close>, and \<^verbatim>\<open>expand_hintmask\<close> on \<open>q\<close> returns the
  original token list unchanged.
\<close>

theorem collapse_expand_roundtrip:
  assumes "hintmask_paired prog" and "\<forall>t\<in>set prog. \<not> is_tuple t"
  shows "\<exists>q. collapse_hintmask prog = Inr q \<and> expand_hintmask q = Inr prog"
  using collapse_hintmask_collapsed [OF assms(1)] expand_hintmask_collapsed [OF assms]
  by simp

theorem collapse_expand_roundtrip_witness:
  "hintmask_paired [TInt 3, TStr ''hstemhm'', TStr ''hintmask'', TStr ''cntrmask'', TInt 5,
       TStr ''rlineto'', TStr ''endchar'']
   \<and> list_all (\<lambda>t. \<not> is_tuple t) [TInt 3, TStr ''hstemhm'', TStr ''hintmask'',
       TStr ''cntrmask'', TInt 5, TStr ''rlineto'', TStr ''endchar'']
   \<and> (\<exists>q. collapse_hintmask [TInt 3, TStr ''hstemhm'', TStr ''hintmask'', TStr ''cntrmask'',
       TInt 5, TStr ''rlineto'', TStr ''endchar''] = Inr q
       \<and> expand_hintmask q = Inr [TInt 3, TStr ''hstemhm'', TStr ''hintmask'',
       TStr ''cntrmask'', TInt 5, TStr ''rlineto'', TStr ''endchar''])"
  using collapse_expand_roundtrip [of "[TInt 3, TStr ''hstemhm'', TStr ''hintmask'',
       TStr ''cntrmask'', TInt 5, TStr ''rlineto'', TStr ''endchar'']"]
  by (simp add: is_mask_op_def)


section \<open>The suffix array and the LCP array\<close>

lemma positions_from_Cons:
  "positions_from n (d # data) = map (\<lambda>x. (n, x)) [0..<length d] @ positions_from (Suc n) data"
  by (simp add: positions_from_def)

lemma positions_from_props:
  "set (positions_from n data)
     = {(g, t). n \<le> g \<and> g < n + length data \<and> t < length (data ! (g - n))}
   \<and> distinct (positions_from n data)
   \<and> sorted (map fst (positions_from n data))
   \<and> length (positions_from n data) = sum_list (map length data)"
proof (induction data arbitrary: n)
  case Nil
  then show ?case by (simp add: positions_from_def)
next
  case (Cons d data)
  define rest where "rest = positions_from (Suc n) data"
  note IH = Cons.IH [of "Suc n", folded rest_def]
  have s: "set rest = {(g, t). Suc n \<le> g \<and> g < Suc n + length data
      \<and> t < length (data ! (g - Suc n))}" using IH by blast
  have mem: "(p \<in> set rest) = (Suc n \<le> fst p \<and> fst p < Suc n + length data
      \<and> snd p < length (data ! (fst p - Suc n)))" for p
    unfolding s by (cases p) simp
  have memf: "(p \<in> set (map (\<lambda>x. (n, x)) [0..<length d])) = (fst p = n \<and> snd p < length d)" for p
    by (cases p) auto
  have set_eq: "set (map (\<lambda>x. (n, x)) [0..<length d]) \<union> set rest
      = {(g, t). n \<le> g \<and> g < n + length (d # data) \<and> t < length ((d # data) ! (g - n))}"
  proof (rule set_eqI)
    fix p :: "nat \<times> nat"
    obtain g t where p: "p = (g, t)" by (cases p) auto
    have l: "(p \<in> set (map (\<lambda>x. (n, x)) [0..<length d]) \<union> set rest)
        = ((g = n \<and> t < length d)
           \<or> (Suc n \<le> g \<and> g < Suc n + length data \<and> t < length (data ! (g - Suc n))))"
      using mem [of p] memf [of p] p by simp
    have r: "(p \<in> {(g, t). n \<le> g \<and> g < n + length (d # data)
              \<and> t < length ((d # data) ! (g - n))})
        = (n \<le> g \<and> g < Suc n + length data \<and> t < length ((d # data) ! (g - n)))"
      using p by simp
    show "(p \<in> set (map (\<lambda>x. (n, x)) [0..<length d]) \<union> set rest)
        = (p \<in> {(g, t). n \<le> g \<and> g < n + length (d # data)
              \<and> t < length ((d # data) ! (g - n))})"
    proof (cases "g = n")
      case True
      then show ?thesis unfolding l r by simp
    next
      case False
      show ?thesis
      proof (cases "n \<le> g")
        case True
        then have "Suc n \<le> g" using False by arith
        moreover have "(d # data) ! (g - n) = data ! (g - Suc n)"
          using True False by (simp add: nth_Cons')
        ultimately show ?thesis unfolding l r using False True by simp
      next
        case False
        then show ?thesis unfolding l r by simp
      qed
    qed
  qed
  have ge: "Suc n \<le> fst p" if "p \<in> set rest" for p
    using that mem by blast
  have "distinct (map (\<lambda>x. (n, x)) [0..<length d])"
    by (simp add: distinct_map inj_on_def)
  moreover have "distinct rest" using IH by blast
  moreover have "set (map (\<lambda>x. (n, x)) [0..<length d]) \<inter> set rest = {}"
  proof (rule ccontr)
    assume "set (map (\<lambda>x. (n, x)) [0..<length d]) \<inter> set rest \<noteq> {}"
    then obtain p where "p \<in> set (map (\<lambda>x. (n, x)) [0..<length d])" "p \<in> set rest" by blast
    then show False using memf [of p] ge [of p] by simp
  qed
  ultimately have dist: "distinct (map (\<lambda>x. (n, x)) [0..<length d] @ rest)"
    by (simp only: distinct_append)
  have m: "map fst (map (\<lambda>x. (n, x)) [0..<length d]) = replicate (length d) n"
    by (simp add: comp_def map_replicate_const)
  have "sorted (map fst rest)" using IH by blast
  then have "sorted (replicate (length d) n @ map fst rest)"
    using ge by (fastforce simp: sorted_append)
  then have srt: "sorted (map fst (map (\<lambda>x. (n, x)) [0..<length d] @ rest))"
    using m by (metis map_append)
  have len: "length (map (\<lambda>x. (n, x)) [0..<length d] @ rest) = sum_list (map length (d # data))"
    using IH by simp
  show ?case
    unfolding positions_from_Cons rest_def [symmetric]
    using set_eq dist srt len by (simp only: set_append) 
qed

lemma initial_suffixes_props:
  "set (initial_suffixes data) = positions data" "distinct (initial_suffixes data)"
  "sorted (map fst (initial_suffixes data))" "length (initial_suffixes data) = total_length data"
  using positions_from_props [of 0 data]
  by (auto simp: initial_suffixes_def positions_from_def positions_def total_length_def)

lemma sorted_filter_nth:
  "sorted (map f (filter P xs)) \<Longrightarrow> i < j \<Longrightarrow> j < length xs \<Longrightarrow> P (xs ! i) \<Longrightarrow> P (xs ! j)
   \<Longrightarrow> f (xs ! i) \<le> f (xs ! j)"
proof (induction xs arbitrary: i j)
  case Nil
  then show ?case by simp
next
  case (Cons x xs)
  obtain j' where j': "j = Suc j'" using Cons.prems(2) by (cases j) auto
  show ?case
  proof (cases i)
    case 0
    have "xs ! j' \<in> set (filter P xs)" using Cons.prems j' by auto
    then show ?thesis using Cons.prems 0 j' by auto
  next
    case (Suc i')
    have "sorted (map f (filter P xs))" using Cons.prems(1) by (cases "P x") auto
    then show ?thesis using Cons.IH [of i' j'] Cons.prems Suc j' by auto
  qed
qed

lemma suffix_at_same_glyph:
  "t < length d \<Longrightarrow> t' < length d \<Longrightarrow> drop t d = drop t' d \<Longrightarrow> t = t'"
proof -
  assume a: "t < length d" "t' < length d" "drop t d = drop t' d"
  then have "length d - t = length d - t'" by (metis length_drop)
  then show ?thesis using a by arith
qed

lemma get_suffixes_is_suffix_array: "is_suffix_array data (get_suffixes data)"
proof -
  let ?sa = "get_suffixes data"
  let ?S = "suffix_at data"
  have d: "distinct ?sa" and s: "set ?sa = positions data"
    by (simp_all add: get_suffixes_def initial_suffixes_props)
  have srt: "sorted (map ?S ?sa)" by (simp add: get_suffixes_def)
  have st: "fst (?sa ! i) < fst (?sa ! j)"
    if "i < j" "j < length ?sa" "?S (?sa ! i) = ?S (?sa ! j)" for i j
  proof -
    let ?k = "?S (?sa ! i)"
    have "filter (\<lambda>y. ?S y = ?k) ?sa = filter (\<lambda>y. ?S y = ?k) (initial_suffixes data)"
      unfolding get_suffixes_def by (rule sort_key_stable)
    moreover have "sorted (map fst (filter (\<lambda>y. ?S y = ?k) (initial_suffixes data)))"
      using initial_suffixes_props(3) [of data] by (rule sorted_filter)
    ultimately have "sorted (map fst (filter (\<lambda>y. ?S y = ?k) ?sa))" by simp
    then have le: "fst (?sa ! i) \<le> fst (?sa ! j)"
      using that by (intro sorted_filter_nth [where P = "\<lambda>y. ?S y = ?k"]) auto
    have ne: "?sa ! i \<noteq> ?sa ! j" using d that by (simp add: nth_eq_iff_index_eq)
    have pi: "?sa ! i \<in> positions data" and pj: "?sa ! j \<in> positions data"
      using s that by (metis nth_mem order.strict_trans)+
    have "fst (?sa ! i) \<noteq> fst (?sa ! j)"
    proof
      assume e: "fst (?sa ! i) = fst (?sa ! j)"
      have "snd (?sa ! i) = snd (?sa ! j)"
        using pi pj e that(3)
        by (intro suffix_at_same_glyph [of _ "data ! fst (?sa ! i)"])
          (auto simp: positions_def suffix_at_def)
      then show False using e ne by (simp add: prod_eq_iff)
    qed
    then show ?thesis using le by simp
  qed
  show ?thesis unfolding is_suffix_array_def using d s srt st by blast
qed

lemma lcp_len_le: "lcp_len xs ys \<le> length xs \<and> lcp_len xs ys \<le> length ys"
  by (induction xs ys rule: lcp_len.induct) auto

lemma lcp_len_nth: "k < lcp_len xs ys \<Longrightarrow> xs ! k = ys ! k"
proof (induction xs ys arbitrary: k rule: lcp_len.induct)
  case (1 x xs y ys)
  then show ?case by (cases k) (auto split: if_splits)
qed auto

lemma lcp_len_ge:
  "(\<And>k. k < m \<Longrightarrow> k < length xs \<and> k < length ys \<and> xs ! k = ys ! k) \<Longrightarrow> m \<le> lcp_len xs ys"
proof (induction m arbitrary: xs ys)
  case 0
  show ?case by simp
next
  case (Suc m')
  have first: "0 < length xs \<and> 0 < length ys \<and> xs ! 0 = ys ! 0"
    using Suc.prems [of 0] by simp
  then obtain x xs' where xs: "xs = x # xs'" by (cases xs) auto
  from first obtain y ys' where ys: "ys = y # ys'" by (cases ys) auto
  have "x = y" using first xs ys by simp
  moreover have "m' \<le> lcp_len xs' ys'"
  proof (rule Suc.IH)
    fix k
    assume "k < m'"
    then show "k < length xs' \<and> k < length ys' \<and> xs' ! k = ys' ! k"
      using Suc.prems [of "Suc k"] xs ys by simp
  qed
  ultimately show ?case using xs ys by simp
qed

lemma lcp_len_step:
  assumes "h \<le> lcp_len xs ys"
  shows "(h < length xs \<and> h < length ys \<and> xs ! h = ys ! h) = (h < lcp_len xs ys)"
proof
  assume a: "h < length xs \<and> h < length ys \<and> xs ! h = ys ! h"
  have "Suc h \<le> lcp_len xs ys"
  proof (rule lcp_len_ge)
    fix k
    assume "k < Suc h"
    then have "k < h \<or> k = h" by arith
    then show "k < length xs \<and> k < length ys \<and> xs ! k = ys ! k"
      using a assms lcp_len_nth [of k xs ys] lcp_len_le [of xs ys] by auto
  qed
  then show "h < lcp_len xs ys" by simp
next
  assume "h < lcp_len xs ys"
  then show "h < length xs \<and> h < length ys \<and> xs ! h = ys ! h"
    using lcp_len_nth [of h xs ys] lcp_len_le [of xs ys] by simp
qed

lemma extend_h_correct:
  "cur_h \<le> lcp_len (drop last_tidx last_chstring) (drop tok_idx chstring) \<Longrightarrow>
   extend_h last_chstring last_tidx chstring tok_idx cur_h
     = lcp_len (drop last_tidx last_chstring) (drop tok_idx chstring)"
proof (induction last_chstring last_tidx chstring tok_idx cur_h rule: extend_h.induct)
  case (1 last_chstring last_tidx chstring tok_idx cur_h)
  let ?A = "drop last_tidx last_chstring"
  let ?B = "drop tok_idx chstring"
  have c: "(last_tidx + cur_h < length last_chstring \<and> tok_idx + cur_h < length chstring
         \<and> last_chstring ! (last_tidx + cur_h) = chstring ! (tok_idx + cur_h))
      = (cur_h < length ?A \<and> cur_h < length ?B \<and> ?A ! cur_h = ?B ! cur_h)"
    by auto
  show ?case
  proof (cases "cur_h < lcp_len ?A ?B")
    case True
    then have cond: "last_tidx + cur_h < length last_chstring \<and> tok_idx + cur_h < length chstring
         \<and> last_chstring ! (last_tidx + cur_h) = chstring ! (tok_idx + cur_h)"
      using lcp_len_step [OF "1.prems"] c by simp
    have "extend_h last_chstring last_tidx chstring tok_idx (cur_h + 1) = lcp_len ?A ?B"
      using "1.IH" [OF cond] True by simp
    moreover have "extend_h last_chstring last_tidx chstring tok_idx cur_h
        = extend_h last_chstring last_tidx chstring tok_idx (cur_h + 1)"
      by (subst extend_h.simps) (rule if_P [OF cond])
    ultimately show ?thesis by simp
  next
    case False
    then have e: "cur_h = lcp_len ?A ?B" using "1.prems" by simp
    have nc: "\<not> (last_tidx + cur_h < length last_chstring \<and> tok_idx + cur_h < length chstring
         \<and> last_chstring ! (last_tidx + cur_h) = chstring ! (tok_idx + cur_h))"
      using lcp_len_step [OF "1.prems"] c False by simp
    have "extend_h last_chstring last_tidx chstring tok_idx cur_h = cur_h"
      by (subst extend_h.simps) (rule if_not_P [OF nc])
    then show ?thesis using e by simp
  qed
qed

lemma lcp_len_sandwich:
  fixes x y z :: "nat list"
  shows "x \<le> y \<Longrightarrow> y \<le> z \<Longrightarrow> lcp_len x z \<le> lcp_len y z"
proof (induction x arbitrary: y z)
  case Nil
  then show ?case by simp
next
  case (Cons a x')
  then obtain b y' where y: "y = b # y'" by (cases y) auto
  then obtain c z' where z: "z = c # z'" using Cons.prems by (cases z) auto
  show ?case
  proof (cases "a = c")
    case False
    then show ?thesis using z by simp
  next
    case True
    have ab: "a < b \<or> (a = b \<and> x' \<le> y')" using Cons.prems(1) y by simp
    have bc: "b < c \<or> (b = c \<and> y' \<le> z')" using Cons.prems(2) y z by simp
    have "a = b \<and> x' \<le> y' \<and> y' \<le> z'" using ab bc True by auto
    then show ?thesis using Cons.IH [of y' z'] y z True by simp
  qed
qed

lemma lcp_len_longest_common_prefix: "lcp_len xs ys = length (longest_common_prefix xs ys)"
  by (induction xs ys rule: lcp_len.induct) auto

lemma is_suffix_array_length:
  assumes "is_suffix_array data sa"
  shows "length sa = total_length data"
proof -
  have d: "distinct sa" and s: "set sa = positions data"
    using assms by (auto simp: is_suffix_array_def)
  have "card (set sa) = length sa" using d by (rule distinct_card)
  moreover have "card (set (initial_suffixes data)) = length (initial_suffixes data)"
    using initial_suffixes_props(2) by (rule distinct_card)
  moreover have "set sa = set (initial_suffixes data)"
    using s initial_suffixes_props(1) [of data] by simp
  ultimately have "length sa = length (initial_suffixes data)" by simp
  then show ?thesis using initial_suffixes_props(4) [of data] by simp
qed

lemma rank_fold:
  assumes sa: "distinct sa" "set sa = positions data"
  shows "k \<le> length sa \<Longrightarrow>
     length (fold (set_rank sa) [0..<k] (map (\<lambda>d. replicate (length d) 0) data)) = length data
   \<and> (\<forall>g<length data. length (fold (set_rank sa) [0..<k]
           (map (\<lambda>d. replicate (length d) 0) data) ! g) = length (data ! g))
   \<and> (\<forall>i<k. rank_of (fold (set_rank sa) [0..<k] (map (\<lambda>d. replicate (length d) 0) data))
           (sa ! i) = i)"
proof (induction k)
  case 0
  then show ?case by simp
next
  case (Suc k)
  define r where "r = fold (set_rank sa) [0..<k] (map (\<lambda>d. replicate (length d) 0) data)"
  have IH: "length r = length data" "\<forall>g<length data. length (r ! g) = length (data ! g)"
    "\<forall>i<k. rank_of r (sa ! i) = i"
    using Suc unfolding r_def by auto
  obtain g t where gt: "sa ! k = (g, t)" by (cases "sa ! k") auto
  have "sa ! k \<in> positions data" using Suc.prems sa by (metis Suc_le_lessD nth_mem)
  then have g: "g < length data" and t: "t < length (data ! g)"
    using gt by (auto simp: positions_def)
  define r' where "r' = r[g := (r ! g)[t := k]]"
  have step: "fold (set_rank sa) [0..<Suc k] (map (\<lambda>d. replicate (length d) 0) data) = r'"
    unfolding r'_def r_def by (simp add: set_rank_def gt)
  have l1: "length r' = length data" using IH by (simp add: r'_def)
  have l2: "\<forall>g'<length data. length (r' ! g') = length (data ! g')"
    using IH g by (auto simp: r'_def nth_list_update)
  have l3: "rank_of r' (sa ! i) = i" if "i < Suc k" for i
  proof (cases "i = k")
    case True
    then show ?thesis using gt g t IH by (simp add: rank_of_def r'_def)
  next
    case False
    then have ik: "i < k" using that by simp
    have "sa ! i \<noteq> sa ! k" using sa(1) ik Suc.prems by (simp add: nth_eq_iff_index_eq)
    then have ne: "fst (sa ! i) \<noteq> g \<or> snd (sa ! i) \<noteq> t" using gt by (auto simp: prod_eq_iff)
    have "rank_of r' (sa ! i) = rank_of r (sa ! i)"
    proof (cases "fst (sa ! i) = g")
      case True
      then have "snd (sa ! i) \<noteq> t" using ne by simp
      then show ?thesis using True g IH by (simp add: rank_of_def r'_def)
    next
      case False
      then show ?thesis by (simp add: rank_of_def r'_def)
    qed
    then show ?thesis using IH ik by simp
  qed
  show ?case unfolding step using l1 l2 l3 by blast
qed

lemma rank_array_nth:
  assumes "is_suffix_array data sa" and "i < length sa"
  shows "rank_of (rank_array data sa) (sa ! i) = i"
proof -
  have "distinct sa" "set sa = positions data" using assms by (auto simp: is_suffix_array_def)
  then show ?thesis
    using rank_fold [of sa data "length sa"] assms is_suffix_array_length [OF assms(1)]
    by (simp add: rank_array_def)
qed

lemma rank_array_position:
  assumes "is_suffix_array data sa" and "p \<in> positions data"
  shows "rank_of (rank_array data sa) p < length sa \<and> sa ! rank_of (rank_array data sa) p = p"
proof -
  have "p \<in> set sa" using assms by (simp add: is_suffix_array_def)
  then obtain i where "i < length sa" "sa ! i = p" by (auto simp: in_set_conv_nth)
  then show ?thesis using rank_array_nth [OF assms(1), of i] by auto
qed

lemma suffix_at_Cons:
  "(g, t) \<in> positions data \<Longrightarrow> suffix_at data (g, t) = data ! g ! t # suffix_at data (g, Suc t)"
  by (simp add: positions_def suffix_at_def Cons_nth_drop_Suc)

lemma suffix_array_mono:
  assumes "is_suffix_array data sa" and "i \<le> j" and "j < length sa"
  shows "suffix_at data (sa ! i) \<le> suffix_at data (sa ! j)"
proof -
  have "sorted (map (suffix_at data) sa)" using assms by (simp add: is_suffix_array_def)
  then have "map (suffix_at data) sa ! i \<le> map (suffix_at data) sa ! j"
    using assms by (intro sorted_nth_mono) auto
  then show ?thesis using assms by simp
qed

lemma kasai_step:
  assumes SA: "is_suffix_array data sa"
    and p: "(g, t) \<in> positions data"
    and r: "0 < rank_of (rank_array data sa) (g, t)"
    and h: "2 \<le> lcp_len (suffix_at data (sa ! (rank_of (rank_array data sa) (g, t) - 1)))
                  (suffix_at data (g, t))"
  shows "(g, Suc t) \<in> positions data \<and> 0 < rank_of (rank_array data sa) (g, Suc t)
     \<and> lcp_len (suffix_at data (sa ! (rank_of (rank_array data sa) (g, t) - 1)))
                  (suffix_at data (g, t)) - 1
        \<le> lcp_len (suffix_at data (sa ! (rank_of (rank_array data sa) (g, Suc t) - 1)))
                  (suffix_at data (g, Suc t))"
proof -
  let ?S = "suffix_at data"
  let ?rk = "rank_of (rank_array data sa)"
  define rp where "rp = ?rk (g, t)"
  have rp: "rp < length sa" "sa ! rp = (g, t)"
    using rank_array_position [OF SA p] by (simp_all add: rp_def)
  obtain g' t' where q: "sa ! (rp - 1) = (g', t')" by (cases "sa ! (rp - 1)") auto
  have rp0: "0 < rp" using r by (simp add: rp_def)
  have qpos: "(g', t') \<in> positions data"
    using SA rp q by (metis is_suffix_array_def less_imp_diff_less nth_mem)
  define hh where "hh = lcp_len (?S (g', t')) (?S (g, t))"
  have hh: "2 \<le> hh" using h unfolding hh_def rp_def [symmetric] q by assumption
  have len: "hh \<le> length (?S (g', t'))" "hh \<le> length (?S (g, t))"
    using lcp_len_le [of "?S (g', t')" "?S (g, t)"] by (simp_all add: hh_def)
  have p2: "(g, Suc t) \<in> positions data"
    using len(2) hh p by (simp add: positions_def suffix_at_def)
  have q2: "(g', Suc t') \<in> positions data"
    using len(1) hh qpos by (simp add: positions_def suffix_at_def)
  have Sp: "?S (g, t) = data ! g ! t # ?S (g, Suc t)" using p by (rule suffix_at_Cons)
  have Sq: "?S (g', t') = data ! g' ! t' # ?S (g', Suc t')" using qpos by (rule suffix_at_Cons)
  have hd_eq: "data ! g' ! t' = data ! g ! t"
    using hh unfolding hh_def Sp Sq by (auto split: if_splits)
  have tl_lcp: "lcp_len (?S (g', Suc t')) (?S (g, Suc t)) = hh - 1"
    using hh unfolding hh_def Sp Sq by (auto split: if_splits)
  have "?S (sa ! (rp - 1)) \<le> ?S (sa ! rp)"
    using SA rp(1) by (intro suffix_array_mono) auto
  then have tl_le: "?S (g', Suc t') \<le> ?S (g, Suc t)"
    unfolding q rp(2) Sp Sq using hd_eq by simp
  define i2 where "i2 = ?rk (g', Suc t')"
  define j2 where "j2 = ?rk (g, Suc t)"
  have i2: "i2 < length sa" "sa ! i2 = (g', Suc t')"
    using rank_array_position [OF SA q2] by (simp_all add: i2_def)
  have j2: "j2 < length sa" "sa ! j2 = (g, Suc t)"
    using rank_array_position [OF SA p2] by (simp_all add: j2_def)
  have dist: "distinct sa" using SA by (simp add: is_suffix_array_def)
  have stab: "fst (sa ! i) < fst (sa ! j)"
    if "i < j" "j < length sa" "?S (sa ! i) = ?S (sa ! j)" for i j
    using SA that unfolding is_suffix_array_def by blast
  have "sa ! (rp - 1) \<noteq> sa ! rp"
    using dist rp(1) rp0 by (simp add: nth_eq_iff_index_eq)
  then have "(g', t') \<noteq> (g, t)" using q rp(2) by simp
  then have ne2: "i2 \<noteq> j2" using i2(2) j2(2) by auto
  have "\<not> j2 < i2"
  proof
    assume lt: "j2 < i2"
    have "?S (sa ! j2) \<le> ?S (sa ! i2)" using SA lt i2(1) by (intro suffix_array_mono) auto
    then have eq2: "?S (g', Suc t') = ?S (g, Suc t)" using tl_le i2(2) j2(2) by simp
    have "fst (sa ! j2) < fst (sa ! i2)" using lt i2(1) eq2 i2(2) j2(2) by (intro stab) auto
    then have a: "g < g'" using i2(2) j2(2) by simp
    have "?S (sa ! (rp - 1)) = ?S (sa ! rp)" unfolding q rp(2) Sp Sq using hd_eq eq2 by simp
    then have "fst (sa ! (rp - 1)) < fst (sa ! rp)" using rp(1) rp0 by (intro stab) auto
    then have "g' < g" using q rp(2) by simp
    then show False using a by simp
  qed
  then have lt2: "i2 < j2" using ne2 by simp
  then have j0: "0 < j2" by simp
  have le1: "?S (sa ! i2) \<le> ?S (sa ! (j2 - 1))"
    using SA lt2 j2(1) by (intro suffix_array_mono) auto
  have le2: "?S (sa ! (j2 - 1)) \<le> ?S (sa ! j2)"
    using SA j2(1) by (intro suffix_array_mono) auto
  have "lcp_len (?S (sa ! i2)) (?S (sa ! j2)) \<le> lcp_len (?S (sa ! (j2 - 1))) (?S (sa ! j2))"
    using le1 le2 by (rule lcp_len_sandwich)
  then have "hh - 1 \<le> lcp_len (?S (sa ! (j2 - 1))) (?S (g, Suc t))"
    using tl_lcp i2(2) j2(2) by simp
  then have f3: "lcp_len (?S (sa ! (?rk (g, t) - 1))) (?S (g, t)) - 1
      \<le> lcp_len (?S (sa ! (?rk (g, Suc t) - 1))) (?S (g, Suc t))"
    unfolding hh_def j2_def q [symmetric] rp_def by assumption
  have f2: "0 < ?rk (g, Suc t)" using j0 unfolding j2_def by assumption
  show ?thesis using p2 f2 f3 by blast
qed

lemma lcp_step_ok:
  assumes SA: "is_suffix_array data sa"
    and p: "(g, t) \<in> positions data"
    and ok: "cells_ok data sa D lcp"
    and h: "cur_h \<le> h_bound data sa (g, t)"
    and st: "lcp_step data sa (rank_array data sa) g t (lcp, cur_h) = (lcp', h')"
  shows "cells_ok data sa (insert (g, t) D) lcp'
       \<and> ((g, Suc t) \<in> positions data \<longrightarrow> h' \<le> h_bound data sa (g, Suc t))"
proof -
  let ?rk = "rank_of (rank_array data sa)"
  have rkp: "?rk (g, t) < length sa" "sa ! ?rk (g, t) = (g, t)"
    using rank_array_position [OF SA p] by simp_all
  have cr: "rank_array data sa ! g ! t = ?rk (g, t)" by (simp add: rank_of_def)
  show ?thesis
  proof (cases "0 < ?rk (g, t)")
    case False
    then have e: "lcp' = lcp" "h' = cur_h" using st by (simp_all add: lcp_step_def cr)
    have "cur_h = 0" using h False by (simp add: h_bound_def)
    then show ?thesis using ok p False e by (auto simp: cells_ok_def)
  next
    case True
    obtain g' t' where q: "sa ! (?rk (g, t) - 1) = (g', t')"
      by (cases "sa ! (?rk (g, t) - 1)") auto
    define hh where "hh = extend_h (data ! g') t' (data ! g) t cur_h"
    have "cur_h \<le> prev_lcp data sa (g, t)" using h True by (simp add: h_bound_def)
    then have "cur_h \<le> lcp_len (drop t' (data ! g')) (drop t (data ! g))"
      unfolding prev_lcp_def q by (simp add: suffix_at_def)
    then have "hh = lcp_len (drop t' (data ! g')) (drop t (data ! g))"
      unfolding hh_def by (rule extend_h_correct)
    then have hh: "hh = prev_lcp data sa (g, t)"
      unfolding prev_lcp_def q by (simp add: suffix_at_def)
    have q1: "sa ! (?rk (g, t) - Suc 0) = (g', t')" using q by simp
    have e: "lcp' = lcp[?rk (g, t) := hh]" "h' = hh - 1"
      using st True by (auto simp: lcp_step_def cr q1 Let_def hh_def)
    have len: "length lcp = length sa" and z: "0 < length lcp \<longrightarrow> lcp ! 0 = 0"
      and D: "D \<subseteq> positions data"
      and cells: "\<forall>p\<in>D. 0 < ?rk p \<longrightarrow> lcp ! ?rk p = prev_lcp data sa p"
      using ok by (auto simp: cells_ok_def)
    have c': "lcp' ! ?rk p' = prev_lcp data sa p'" if "p' \<in> insert (g, t) D" "0 < ?rk p'" for p'
    proof (cases "?rk p' = ?rk (g, t)")
      case same: True
      have "p' \<in> positions data" using that(1) D p by auto
      then have "sa ! ?rk p' = p'" using rank_array_position [OF SA] by blast
      then have "p' = (g, t)" using same rkp(2) by simp
      then show ?thesis using e(1) hh rkp(1) len by simp
    next
      case False
      then have "p' \<in> D" using that(1) by auto
      then show ?thesis using cells that(2) False e(1) by simp
    qed
    have ok': "cells_ok data sa (insert (g, t) D) lcp'"
      unfolding cells_ok_def using e(1) len z D p c' True by auto
    have "h' \<le> h_bound data sa (g, Suc t)" if p2: "(g, Suc t) \<in> positions data"
    proof (cases "2 \<le> hh")
      case True
      have "2 \<le> lcp_len (suffix_at data (sa ! (?rk (g, t) - 1))) (suffix_at data (g, t))"
        using True hh by (simp add: prev_lcp_def)
      from kasai_step [OF SA p \<open>0 < ?rk (g, t)\<close> this]
      have "0 < ?rk (g, Suc t)" "prev_lcp data sa (g, t) - 1 \<le> prev_lcp data sa (g, Suc t)"
        by (simp_all add: prev_lcp_def)
      then show ?thesis using e(2) hh by (simp add: h_bound_def)
    next
      case False
      then show ?thesis using e(2) by simp
    qed
    then show ?thesis using ok' by blast
  qed
qed

lemma lcp_inner_ok:
  assumes SA: "is_suffix_array data sa" and g: "g < length data"
    and ok: "cells_ok data sa D lcp"
  shows "k \<le> length (data ! g) \<Longrightarrow>
    cells_ok data sa (D \<union> {(g, t) | t. t < k})
      (fst (fold (lcp_step data sa (rank_array data sa) g) [0..<k] (lcp, 0)))
    \<and> (k < length (data ! g) \<longrightarrow>
         snd (fold (lcp_step data sa (rank_array data sa) g) [0..<k] (lcp, 0))
           \<le> h_bound data sa (g, k))"
proof (induction k)
  case 0
  then show ?case using ok by simp
next
  case (Suc k)
  define st where "st = fold (lcp_step data sa (rank_array data sa) g) [0..<k] (lcp, 0)"
  have IH: "cells_ok data sa (D \<union> {(g, t) | t. t < k}) (fst st)"
    "snd st \<le> h_bound data sa (g, k)"
    using Suc unfolding st_def by auto
  have p: "(g, k) \<in> positions data" using Suc.prems g by (simp add: positions_def)
  define st' where "st' = lcp_step data sa (rank_array data sa) g k (fst st, snd st)"
  have step: "fold (lcp_step data sa (rank_array data sa) g) [0..<Suc k] (lcp, 0) = st'"
    unfolding st'_def st_def by simp
  have "lcp_step data sa (rank_array data sa) g k (fst st, snd st) = (fst st', snd st')"
    by (simp add: st'_def)
  from lcp_step_ok [OF SA p IH(1) IH(2) this]
  have r: "cells_ok data sa (insert (g, k) (D \<union> {(g, t) | t. t < k})) (fst st')"
    "(g, Suc k) \<in> positions data \<longrightarrow> snd st' \<le> h_bound data sa (g, Suc k)"
    by auto
  have "insert (g, k) (D \<union> {(g, t) | t. t < k}) = D \<union> {(g, t) | t. t < Suc k}"
    by (auto simp: less_Suc_eq)
  moreover have "Suc k < length (data ! g) \<Longrightarrow> (g, Suc k) \<in> positions data"
    using g by (simp add: positions_def)
  ultimately show ?case unfolding step using r by auto
qed

lemma lcp_glyph_ok:
  assumes SA: "is_suffix_array data sa" and g: "g < length data"
    and ok: "cells_ok data sa D lcp"
  shows "cells_ok data sa (D \<union> {(g, t) | t. t < length (data ! g)})
           (lcp_glyph data sa (rank_array data sa) g lcp)"
  using lcp_inner_ok [OF SA g ok, of "length (data ! g)"] by (simp add: lcp_glyph_def)

lemma lcp_outer_ok:
  assumes SA: "is_suffix_array data sa"
  shows "G \<le> length data \<Longrightarrow>
    cells_ok data sa {p \<in> positions data. fst p < G}
      (fold (lcp_glyph data sa (rank_array data sa)) [0..<G] (replicate (total_length data) 0))"
proof (induction G)
  case 0
  then show ?case
    using is_suffix_array_length [OF SA] by (simp add: cells_ok_def)
next
  case (Suc G)
  define lcp where "lcp = fold (lcp_glyph data sa (rank_array data sa)) [0..<G]
      (replicate (total_length data) 0)"
  have IH: "cells_ok data sa {p \<in> positions data. fst p < G} lcp"
    using Suc unfolding lcp_def by simp
  have g: "G < length data" using Suc.prems by simp
  have "{p \<in> positions data. fst p < G} \<union> {(G, t) | t. t < length (data ! G)}
      = {p \<in> positions data. fst p < Suc G}"
    using g by (auto simp: positions_def less_Suc_eq)
  then show ?case
    using lcp_glyph_ok [OF SA g IH] by (simp add: lcp_def)
qed

lemma get_lcp_cells:
  "cells_ok data (get_suffixes data) (positions data) (get_lcp data)"
proof -
  have "{p \<in> positions data. fst p < length data} = positions data"
    by (auto simp: positions_def)
  then show ?thesis
    using lcp_outer_ok [OF get_suffixes_is_suffix_array, of "length data" data]
    by (simp add: get_lcp_def Let_def)
qed

text \<open>
  Claim C5. After \<^verbatim>\<open>get_suffixes\<close> and \<^verbatim>\<open>get_lcp\<close>, the suffix array lists every corpus
  position once, in lexicographically non-decreasing order of the suffixes; \<^verbatim>\<open>lcp\<close> has one
  entry per rank, \<^verbatim>\<open>lcp[0] = 0\<close>, and for every rank \<open>r \<ge> 1\<close>, \<^verbatim>\<open>lcp[r]\<close> is the length of the
  longest common prefix of the suffixes at ranks \<open>r - 1\<close> and \<open>r\<close>.
\<close>

theorem suffix_array_and_lcp:
  "distinct (get_suffixes data) \<and> set (get_suffixes data) = positions data
   \<and> sorted (map (suffix_at data) (get_suffixes data))
   \<and> length (get_lcp data) = length (get_suffixes data)
   \<and> (0 < length (get_lcp data) \<longrightarrow> get_lcp data ! 0 = 0)
   \<and> (\<forall>r. 0 < r \<and> r < length (get_suffixes data) \<longrightarrow>
         get_lcp data ! r
           = length (longest_common_prefix (suffix_at data (get_suffixes data ! (r - 1)))
                       (suffix_at data (get_suffixes data ! r))))"
proof -
  let ?sa = "get_suffixes data"
  note SA = get_suffixes_is_suffix_array [of data]
  note C = get_lcp_cells [of data, unfolded cells_ok_def]
  have "get_lcp data ! r = length (longest_common_prefix (suffix_at data (?sa ! (r - 1)))
                       (suffix_at data (?sa ! r)))" if "0 < r" "r < length ?sa" for r
  proof -
    have pos: "?sa ! r \<in> positions data" using SA that(2) by (metis is_suffix_array_def nth_mem)
    have rk: "rank_of (rank_array data ?sa) (?sa ! r) = r"
      using rank_array_nth [OF SA that(2)] .
    have "0 < rank_of (rank_array data ?sa) (?sa ! r) \<longrightarrow>
        get_lcp data ! rank_of (rank_array data ?sa) (?sa ! r) = prev_lcp data ?sa (?sa ! r)"
      using C pos by blast
    then have "get_lcp data ! r = prev_lcp data ?sa (?sa ! r)"
      unfolding rk using that(1) by simp
    then show ?thesis
      unfolding prev_lcp_def rk by (simp add: lcp_len_longest_common_prefix)
  qed
  moreover have "distinct ?sa" "set ?sa = positions data" "sorted (map (suffix_at data) ?sa)"
    using SA by (simp_all add: is_suffix_array_def)
  moreover have "length (get_lcp data) = length ?sa"
    "0 < length (get_lcp data) \<longrightarrow> get_lcp data ! 0 = 0"
    using C by blast+
  ultimately show ?thesis by blast
qed

theorem suffix_array_and_lcp_witness:
  "get_suffixes [[0, 1, 0, 1, 0], [1, 0, 1]]
     = [(0, 4), (1, 1), (0, 2), (0, 0), (1, 2), (0, 3), (1, 0), (0, 1)]
   \<and> get_lcp [[0, 1, 0, 1, 0], [1, 0, 1]] = [0, 1, 2, 3, 0, 1, 2, 3]
   \<and> get_lcp [[0, 1, 0, 1, 0], [1, 0, 1]] ! 3
       = length (longest_common_prefix
           (suffix_at [[0, 1, 0, 1, 0], [1, 0, 1]] (get_suffixes [[0, 1, 0, 1, 0], [1, 0, 1]] ! (3 - 1)))
           (suffix_at [[0, 1, 0, 1, 0], [1, 0, 1]] (get_suffixes [[0, 1, 0, 1, 0], [1, 0, 1]] ! 3)))"
proof -
  have a: "get_suffixes [[0, 1, 0, 1, 0], [1, 0, 1]]
     = [(0, 4), (1, 1), (0, 2), (0, 0), (1, 2), (0, 3), (1, 0), (0, 1)]" by code_simp
  have b: "get_lcp [[0, 1, 0, 1, 0], [1, 0, 1]] = [0, 1, 2, 3, 0, 1, 2, 3]" by code_simp
  have c: "(0::nat) < 3 \<and> 3 < length (get_suffixes [[0, 1, 0, 1, 0], [1, 0, 1]])"
    unfolding a by simp
  have "\<forall>r. 0 < r \<and> r < length (get_suffixes [[0, 1, 0, 1, 0], [1, 0, 1]]) \<longrightarrow>
         get_lcp [[0, 1, 0, 1, 0], [1, 0, 1]] ! r
           = length (longest_common_prefix
               (suffix_at [[0, 1, 0, 1, 0], [1, 0, 1]]
                  (get_suffixes [[0, 1, 0, 1, 0], [1, 0, 1]] ! (r - 1)))
               (suffix_at [[0, 1, 0, 1, 0], [1, 0, 1]]
                  (get_suffixes [[0, 1, 0, 1, 0], [1, 0, 1]] ! r)))"
    using suffix_array_and_lcp [of "[[0, 1, 0, 1, 0], [1, 0, 1]]"] by blast
  then have "get_lcp [[0, 1, 0, 1, 0], [1, 0, 1]] ! 3
       = length (longest_common_prefix
           (suffix_at [[0, 1, 0, 1, 0], [1, 0, 1]] (get_suffixes [[0, 1, 0, 1, 0], [1, 0, 1]] ! (3 - 1)))
           (suffix_at [[0, 1, 0, 1, 0], [1, 0, 1]] (get_suffixes [[0, 1, 0, 1, 0], [1, 0, 1]] ! 3)))"
    using c by blast
  then show ?thesis using a b by blast
qed


section \<open>\<^verbatim>\<open>get_substrings\<close>: which candidates are kept\<close>

lemma default_saving_eq: "default_saving s = Inr (saving_of s)"
  by (simp add: default_saving_def subr_saving_def saving_of_def Let_def)

lemma saving_of_new_candidate [simp]:
  "freq (new_candidate l loc f c) = f" "cost (new_candidate l loc f c) = c"
  "subr_length (new_candidate l loc f c) = l" "location (new_candidate l loc f c) = loc"
  by (simp_all add: new_candidate_def)

lemma pop_loop_filter:
  "pop_all cost_map data sufs i min_l st subs = Inr (st', subs') \<Longrightarrow>
   pop_loop cost_map data sufs min_freq check_positive i min_l st
     (filter (kept min_freq check_positive) subs)
   = Inr (st', filter (kept min_freq check_positive) subs')"
proof (induction cost_map data sufs i min_l st subs rule: pop_all.induct)
  case (1 cost_map data sufs i min_l st subs)
  show ?case
  proof (cases "st \<noteq> [] \<and> fst (last st) > min_l")
    case False
    have "pop_all cost_map data sufs i min_l st subs = Inr (st, subs)"
      using False by (subst pop_all.simps) auto
    then have e: "st' = st" "subs' = subs" using "1.prems" by auto
    have "pop_loop cost_map data sufs min_freq check_positive i min_l st
        (filter (kept min_freq check_positive) subs)
      = Inr (st, filter (kept min_freq check_positive) subs)"
      using False by (subst pop_loop.simps) auto
    then show ?thesis using e by simp
  next
    case True
    obtain l start_idx where ls: "last st = (l, start_idx)" by (cases "last st") auto
    from "1.prems" True ls obtain loc c where
      loc: "py_get_int sufs start_idx = Inr loc"
      and c: "compute_cost cost_map data l loc = Inr c"
      and rest: "pop_all cost_map data sufs i min_l (butlast st)
                   (subs @ [new_candidate l loc (i - start_idx) c]) = Inr (st', subs')"
      by (subst (asm) pop_all.simps) (auto split: sum.splits)
    have ls': "(l, start_idx) = last st" using ls by simp
    note IH = "1.IH" [OF True ls' loc c rest]
    let ?cand = "new_candidate l loc (i - start_idx) c"
    show ?thesis
    proof (cases "i - start_idx < min_freq")
      case lt: True
      then have "\<not> kept min_freq check_positive ?cand" by (simp add: kept_def)
      then show ?thesis
        using IH True ls lt by (subst pop_loop.simps) simp
    next
      case ge: False
      show ?thesis
      proof (cases "saving_of ?cand > 0 \<or> \<not> check_positive")
        case k: True
        then have "kept min_freq check_positive ?cand" using ge by (auto simp: kept_def)
        then show ?thesis
          using IH True ls ge loc c k
          by (subst pop_loop.simps) (auto simp: default_saving_eq)
      next
        case k: False
        then have "\<not> kept min_freq check_positive ?cand" by (auto simp: kept_def)
        then show ?thesis
          using IH True ls ge loc c k
          by (subst pop_loop.simps) (auto simp: default_saving_eq)
      qed
    qed
  qed
qed

lemma sweep_step_filter:
  "extract_step cost_map data sufs p (st, subs) = Inr (st', subs') \<Longrightarrow>
   sweep_step cost_map data sufs min_freq check_positive p
     (st, filter (kept min_freq check_positive) subs)
   = Inr (st', filter (kept min_freq check_positive) subs')"
proof -
  assume a: "extract_step cost_map data sufs p (st, subs) = Inr (st', subs')"
  obtain i min_l where p: "p = (i, min_l)" by (cases p) auto
  from a p obtain stack where
    pa: "pop_all cost_map data sufs i min_l st subs = Inr (stack, subs')"
    and st': "st' = (if stack = [] \<or> min_l > fst (last stack) then stack @ [(min_l, i - 1)]
                    else stack)"
    by (auto simp: extract_step_def dest!: bind_err_Inr)
  show ?thesis
    using pop_loop_filter [OF pa, of min_freq check_positive] st' p
    by (simp add: sweep_step_def)
qed

lemma sweep_filter:
  "fold_err (extract_step cost_map data sufs) ps (st, subs) = Inr (st', subs') \<Longrightarrow>
   fold_err (sweep_step cost_map data sufs min_freq check_positive) ps
     (st, filter (kept min_freq check_positive) subs)
   = Inr (st', filter (kept min_freq check_positive) subs')"
proof (induction ps arbitrary: st subs)
  case Nil
  then show ?case by simp
next
  case (Cons p ps)
  from Cons.prems obtain st1 subs1 where
    a: "extract_step cost_map data sufs p (st, subs) = Inr (st1, subs1)"
    and b: "fold_err (extract_step cost_map data sufs) ps (st1, subs1) = Inr (st', subs')"
    by (auto split: sum.splits)
  show ?case using sweep_step_filter [OF a] Cons.IH [OF b] by simp
qed

lemma insort_key_decorated:
  "\<forall>p\<in>set zs. fst p = g (snd p) \<Longrightarrow>
   map snd (insort_key (\<lambda>p. k (fst p)) (g x, x) zs) = insort_key (\<lambda>s. k (g s)) x (map snd zs)"
  by (induction zs) auto

lemma sort_key_decorated:
  "map snd (sort_key (\<lambda>p. k (fst p)) (zip (map g xs) xs)) = sort_key (\<lambda>s. k (g s)) xs"
proof (induction xs)
  case Nil
  then show ?case by simp
next
  case (Cons x xs)
  have "\<forall>p\<in>set (sort_key (\<lambda>p. k (fst p)) (zip (map g xs) xs)). fst p = g (snd p)"
    by (auto simp: set_zip)
  then show ?case using Cons insort_key_decorated [of _ g k x] by simp
qed

lemma map_err_default_saving: "map_err default_saving xs = Inr (map saving_of xs)"
  by (induction xs) (simp_all add: default_saving_eq)

lemma map_err_py_get:
  "\<forall>c\<in>set v. c < length xs \<Longrightarrow> map_err (py_get xs) v = Inr (map (\<lambda>c. xs ! c) v)"
  by (induction v) (auto simp: py_get_def)

lemma set_slice: "set (slice a b xs) \<subseteq> set xs"
  unfolding slice_def by (meson set_drop_subset set_take_subset subset_trans)

lemma compute_cost_total:
  assumes "\<forall>d\<in>set data. \<forall>c\<in>set d. c < length cost_map" and "loc \<in> positions data"
  shows "\<exists>c. compute_cost cost_map data l loc = Inr c"
proof -
  have g: "fst loc < length data" using assms(2) by (auto simp: positions_def)
  define v where "v = slice (snd loc) (snd loc + l) (data ! fst loc)"
  have sv: "subr_value data (new_candidate l loc 0 0) = Inr v"
    using g by (simp add: subr_value_def py_get_def v_def)
  have "set v \<subseteq> set (data ! fst loc)" unfolding v_def by (rule set_slice)
  then have "\<forall>c\<in>set v. c < length cost_map" using assms(1) g by (meson nth_mem subsetD)
  then have "map_err (py_get cost_map) v = Inr (map (\<lambda>c. cost_map ! c) v)"
    by (rule map_err_py_get)
  then show ?thesis by (simp add: compute_cost_def sv)
qed

lemma py_get_int_total:
  assumes "sufs \<noteq> []" and "- 1 \<le> s" and "s < int (length sufs)"
  shows "\<exists>loc\<in>set sufs. py_get_int sufs s = Inr loc"
proof (cases "0 \<le> s")
  case True
  then have "py_get_int sufs s = Inr (sufs ! nat s)" using assms by (simp add: py_get_int_def)
  moreover have "sufs ! nat s \<in> set sufs" using True assms by simp
  ultimately show ?thesis by blast
next
  case False
  then have s: "s = - 1" using assms by simp
  have n: "0 < length sufs" using assms(1) by simp
  have "py_get_int sufs s = Inr (sufs ! nat (int (length sufs) + s))"
    using n s by (cases sufs) (auto simp: py_get_int_def)
  moreover have "nat (int (length sufs) + s) < length sufs" using s n by arith
  then have "sufs ! nat (int (length sufs) + s) \<in> set sufs" by (rule nth_mem)
  ultimately show ?thesis by blast
qed

lemma pop_all_total:
  assumes cover: "\<forall>d\<in>set data. \<forall>c\<in>set d. c < length cost_map"
    and sufs: "set sufs = positions data" "sufs \<noteq> []"
  shows "\<forall>e\<in>set st. - 1 \<le> snd e \<and> snd e \<le> i - 2 \<and> snd e < int (length sufs) \<Longrightarrow>
     \<forall>c\<in>set subs. good_candidate cost_map data c \<Longrightarrow>
     \<exists>st' subs'. pop_all cost_map data sufs i min_l st subs = Inr (st', subs')
        \<and> set st' \<subseteq> set st \<and> (\<forall>c\<in>set subs'. good_candidate cost_map data c)"
proof (induction "length st" arbitrary: st subs)
  case 0
  then have "pop_all cost_map data sufs i min_l st subs = Inr (st, subs)"
    by (subst pop_all.simps) simp
  then show ?case using 0 by auto
next
  case (Suc n)
  show ?case
  proof (cases "st \<noteq> [] \<and> fst (last st) > min_l")
    case False
    have "pop_all cost_map data sufs i min_l st subs = Inr (st, subs)"
      by (subst pop_all.simps) (rule if_not_P [OF False])
    then show ?thesis using Suc.prems by auto
  next
    case True
    obtain l start_idx where ls: "last st = (l, start_idx)" by (cases "last st") auto
    have mem: "(l, start_idx) \<in> set st" using True ls by (metis last_in_set)
    then have b: "- 1 \<le> start_idx" "start_idx \<le> i - 2" "start_idx < int (length sufs)"
      using Suc.prems(1) by auto
    obtain loc where loc: "loc \<in> set sufs" "py_get_int sufs start_idx = Inr loc"
      using py_get_int_total [OF sufs(2) b(1) b(3)] by blast
    have lp: "loc \<in> positions data" using loc(1) sufs(1) by simp
    obtain c where c: "compute_cost cost_map data l loc = Inr c"
      using compute_cost_total [OF cover lp] by blast
    let ?cand = "new_candidate l loc (i - start_idx) c"
    have gc: "good_candidate cost_map data ?cand"
      using b(2) lp c by (simp add: good_candidate_def)
    have len: "n = length (butlast st)" using Suc(2) by simp
    have p1: "\<forall>e\<in>set (butlast st). - 1 \<le> snd e \<and> snd e \<le> i - 2 \<and> snd e < int (length sufs)"
      using Suc.prems(1) by (meson in_set_butlastD)
    have p2: "\<forall>c\<in>set (subs @ [?cand]). good_candidate cost_map data c"
      using Suc.prems(2) gc by auto
    from Suc(1) [OF len p1 p2] obtain st' subs' where
      r: "pop_all cost_map data sufs i min_l (butlast st) (subs @ [?cand]) = Inr (st', subs')"
        "set st' \<subseteq> set (butlast st)" "\<forall>c\<in>set subs'. good_candidate cost_map data c"
      by blast
    have "pop_all cost_map data sufs i min_l st subs
        = (case last st of (l, start_idx) \<Rightarrow>
           (case py_get_int sufs start_idx of
              Inl e \<Rightarrow> Inl e
            | Inr loc \<Rightarrow>
                (case compute_cost cost_map data l loc of
                   Inl e \<Rightarrow> Inl e
                 | Inr c \<Rightarrow>
                     pop_all cost_map data sufs i min_l (butlast st)
                       (subs @ [new_candidate l loc (i - start_idx) c]))))"
      by (subst pop_all.simps) (rule if_P [OF True])
    then have "pop_all cost_map data sufs i min_l st subs
        = pop_all cost_map data sufs i min_l (butlast st) (subs @ [?cand])"
      by (simp add: ls loc(2) c)
    moreover have "set (butlast st) \<subseteq> set st" by (meson in_set_butlastD subsetI)
    ultimately show ?thesis using r by auto
  qed
qed

lemma extract_fold_total:
  assumes cover: "\<forall>d\<in>set data. \<forall>c\<in>set d. c < length cost_map"
    and sufs: "set sufs = positions data"
  shows "k + length ls \<le> length sufs \<Longrightarrow>
     \<forall>e\<in>set st. - 1 \<le> snd e \<and> snd e \<le> int k - 2 \<Longrightarrow>
     \<forall>c\<in>set subs. good_candidate cost_map data c \<Longrightarrow>
     \<exists>st' subs'. fold_err (extract_step cost_map data sufs)
                    (zip (map int [k..<k + length ls]) ls) (st, subs) = Inr (st', subs')
        \<and> (\<forall>c\<in>set subs'. good_candidate cost_map data c)"
proof (induction ls arbitrary: k st subs)
  case Nil
  then show ?case by simp
next
  case (Cons l ls)
  have ne: "sufs \<noteq> []" using Cons.prems(1) by auto
  have kn: "int k < int (length sufs)" using Cons.prems(1) by simp
  have pre: "\<forall>e\<in>set st. - 1 \<le> snd e \<and> snd e \<le> int k - 2 \<and> snd e < int (length sufs)"
    using Cons.prems(2) kn by fastforce
  from pop_all_total [OF cover sufs ne pre Cons.prems(3), of l]
  obtain st1 subs1 where
    p: "pop_all cost_map data sufs (int k) l st subs = Inr (st1, subs1)"
      "set st1 \<subseteq> set st" "\<forall>c\<in>set subs1. good_candidate cost_map data c"
    by blast
  define st2 where "st2 = (if st1 = [] \<or> l > fst (last st1) then st1 @ [(l, int k - 1)] else st1)"
  have step: "extract_step cost_map data sufs (int k, l) (st, subs) = Inr (st2, subs1)"
    by (simp add: extract_step_def p(1) st2_def)
  have inv: "\<forall>e\<in>set st2. - 1 \<le> snd e \<and> snd e \<le> int (Suc k) - 2"
  proof
    fix e
    assume "e \<in> set st2"
    then have "e \<in> set st1 \<or> e = (l, int k - 1)"
      unfolding st2_def by (auto split: if_splits)
    then show "- 1 \<le> snd e \<and> snd e \<le> int (Suc k) - 2"
    proof
      assume "e \<in> set st1"
      then have "e \<in> set st" using p(2) by blast
      then have "- 1 \<le> snd e \<and> snd e \<le> int k - 2" using Cons.prems(2) by blast
      then show ?thesis by simp
    next
      assume "e = (l, int k - 1)"
      then show ?thesis by simp
    qed
  qed
  have len: "Suc k + length ls \<le> length sufs" using Cons.prems(1) by simp
  from Cons.IH [OF len inv p(3)] obtain st' subs' where
    r: "fold_err (extract_step cost_map data sufs)
          (zip (map int [Suc k..<Suc k + length ls]) ls) (st2, subs1) = Inr (st', subs')"
       "\<forall>c\<in>set subs'. good_candidate cost_map data c"
    by blast
  have "[k..<k + length (l # ls)] = k # [Suc k..<Suc k + length ls]"
    by (subst upt_rec) simp
  then show ?case using step r by simp
qed

lemma lcp_candidates_total:
  assumes "\<forall>d\<in>set data. \<forall>c\<in>set d. c < length cost_map"
  shows "\<exists>all. lcp_candidates cost_map data = Inr all
     \<and> (\<forall>s\<in>set all. good_candidate cost_map data s)"
proof -
  have s: "set (get_suffixes data) = positions data"
    and l: "length (get_lcp data) = length (get_suffixes data)"
    using get_suffixes_is_suffix_array [of data] get_lcp_cells [of data]
    by (simp_all add: is_suffix_array_def cells_ok_def)
  have "\<exists>st' subs'. fold_err (extract_step cost_map data (get_suffixes data))
            (zip (map int [0..<0 + length (get_lcp data)]) (get_lcp data)) ([], []) = Inr (st', subs')
        \<and> (\<forall>c\<in>set subs'. good_candidate cost_map data c)"
    using l by (intro extract_fold_total [OF assms s]) auto
  then show ?thesis by (auto simp: lcp_candidates_def)
qed

text \<open>
  Claim C8. When every code of the corpus has an entry in \<^verbatim>\<open>cost_map\<close>, the sweep over the
  LCP array returns a list \<open>all\<close> of candidates, each with \<open>freq \<ge> 2\<close> and with the sum of its
  codes' costs as its cost, and \<^verbatim>\<open>get_substrings\<close> returns exactly those of them with
  \<open>freq \<ge> min_freq\<close> and, when \<^verbatim>\<open>check_positive\<close>, with
  \<open>cost * freq - cost - 5 * freq - 3 > 0\<close>, sorted (stably) by saving descending or by length.
  So a candidate whose saving is exactly 0 is left out when \<^verbatim>\<open>check_positive\<close>, and in test
  mode (\<open>min_freq = 0\<close>, \<^verbatim>\<open>check_positive\<close> false) every candidate is kept.
\<close>

theorem get_substrings_kept:
  assumes "\<forall>d\<in>set data. \<forall>c\<in>set d. c < length cost_map"
  shows "\<exists>all. lcp_candidates cost_map data = Inr all
     \<and> (\<forall>s\<in>set all. 2 \<le> freq s
           \<and> compute_cost cost_map data (subr_length s) (location s) = Inr (cost s))
     \<and> get_substrings cost_map data min_freq check_positive sort_by_length
         = Inr (if sort_by_length
                then sort_key (\<lambda>s. int (subr_length s)) (filter (kept min_freq check_positive) all)
                else sort_key (\<lambda>s. - saving_of s) (filter (kept min_freq check_positive) all))
     \<and> filter (kept 0 False) all = all"
proof -
  obtain all where all: "lcp_candidates cost_map data = Inr all"
    and good: "\<forall>s\<in>set all. good_candidate cost_map data s"
    using lcp_candidates_total [OF assms] by blast
  let ?ps = "zip (map int [0..<length (get_lcp data)]) (get_lcp data)"
  let ?F = "filter (kept min_freq check_positive) all"
  obtain st where ex: "fold_err (extract_step cost_map data (get_suffixes data)) ?ps ([], [])
      = Inr (st, all)"
    using all by (auto simp: lcp_candidates_def dest!: bind_err_Inr)
  have sw: "sweep cost_map data (get_suffixes data) (get_lcp data) min_freq check_positive
      = Inr (st, ?F)"
    using sweep_filter [OF ex, of min_freq check_positive] by (simp add: sweep_def)
  have keys: "map_err default_saving ?F = Inr (map saving_of ?F)"
    by (rule map_err_default_saving)
  have srt: "map snd (sort_desc fst (zip (map saving_of ?F) ?F)) = sort_key (\<lambda>s. - saving_of s) ?F"
    unfolding sort_desc_def using sort_key_decorated [of uminus saving_of ?F] by simp
  have res: "get_substrings cost_map data min_freq check_positive sort_by_length
         = Inr (if sort_by_length then sort_key (\<lambda>s. int (subr_length s)) ?F
                else sort_key (\<lambda>s. - saving_of s) ?F)"
    by (simp add: get_substrings_def sw keys srt sort_asc_def)
  have "kept 0 False s" if "s \<in> set all" for s
    using good that by (auto simp: kept_def good_candidate_def)
  then have t: "filter (kept 0 False) all = all" by (simp add: filter_id_conv)
  have "\<forall>s\<in>set all. 2 \<le> freq s
           \<and> compute_cost cost_map data (subr_length s) (location s) = Inr (cost s)"
    using good by (simp add: good_candidate_def)
  then show ?thesis using all res t by blast
qed

theorem get_substrings_kept_witness:
  "list_all (\<lambda>d. list_all (\<lambda>c. c < length zero_cost_map) d) zero_data
   \<and> get_substrings zero_cost_map zero_data 2 True False = Inr []
   \<and> map (\<lambda>s. (subr_length s, freq s, cost s, saving_of s))
        (projr (get_substrings zero_cost_map zero_data 0 False False))
       = [(6, 2, 13, 0), (5, 2, 11, - 2), (4, 2, 10, - 3), (3, 2, 7, - 6), (2, 2, 4, - 9),
          (1, 2, 2, - 11)]"
proof -
  have c: "list_all (\<lambda>d. list_all (\<lambda>c. c < length zero_cost_map) d) zero_data"
    by (simp add: zero_data_def zero_cost_map_def)
  then have cover: "\<forall>d\<in>set zero_data. \<forall>c\<in>set d. c < length zero_cost_map"
    by (simp add: list_all_iff)
  obtain all where a: "lcp_candidates zero_cost_map zero_data = Inr all"
    and g: "get_substrings zero_cost_map zero_data 2 True False
         = Inr (if False
                then sort_key (\<lambda>s. int (subr_length s)) (filter (kept 2 True) all)
                else sort_key (\<lambda>s. - saving_of s) (filter (kept 2 True) all))"
    using get_substrings_kept [OF cover, of 2 True False] by blast
  have "all = projr (lcp_candidates zero_cost_map zero_data)" using a by simp
  moreover have "filter (kept 2 True) (projr (lcp_candidates zero_cost_map zero_data)) = []"
    by code_simp
  ultimately have e: "get_substrings zero_cost_map zero_data 2 True False = Inr []"
    using g by simp
  have t: "map (\<lambda>s. (subr_length s, freq s, cost s, saving_of s))
        (projr (get_substrings zero_cost_map zero_data 0 False False))
       = [(6, 2, 13, 0), (5, 2, 11, - 2), (4, 2, 10, - 3), (3, 2, 7, - 6), (2, 2, 4, - 9),
          (1, 2, 2, - 11)]"
    by code_simp
  show ?thesis using c e t by blast
qed

section \<open>Pruning at the end of a round\<close>










section \<open>The dynamic programme finds a cheapest partition\<close>

lemma fold_err_append:
  "fold_err f (xs @ ys) s = bind_err (fold_err f xs s) (fold_err f ys)"
  by (induction xs arbitrary: s) (auto split: sum.splits)

lemma slice_snoc:
  assumes "i \<le> J" and "J < length cs"
  shows "slice i (Suc J) cs = slice i J cs @ [cs ! J]"
proof -
  have "Suc J - i = Suc (J - i)" using assms by simp
  moreover have "J - i < length (drop i cs)" using assms by simp
  moreover have "drop i cs ! (J - i) = cs ! J" using assms by simp
  ultimately show ?thesis
    unfolding slice_def by (simp add: take_Suc_conv_app_nth)
qed

lemma slice_same: "slice i i cs = []"
  by (simp add: slice_def)

lemma tok_cost_snoc: "tok_cost cost_map (xs @ [x]) = tok_cost cost_map xs + cost_map ! x"
  by (simp add: tok_cost_def)

lemma tok_cost_Nil: "tok_cost cost_map [] = 0"
  by (simp add: tok_cost_def)

lemma inner_step_eq:
  fixes emb :: "int \<Rightarrow> 'a::{linorder,plus}"
  assumes cover: "\<forall>c\<in>set cs. c < length cost_map"
    and noassert: "\<forall>j sub. i < j \<and> j \<le> length cs \<and> substr_dict (slice i j cs) = Some sub
                     \<and> Some (fst sub) = skip_idx \<longrightarrow> i = 0 \<and> j = length cs"
    and ij: "i \<le> J" "J < length cs"
  shows "inner_step emb cost_map substr_dict skip_idx cs results i (Suc J)
           (mo, mi, ms, tok_cost cost_map (slice i J cs)) =
         Inr (if ext_less (option_at emb cost_map substr_dict skip_idx cs results i (Suc J)) mo
              then (option_at emb cost_map substr_dict skip_idx cs results i (Suc J), Suc J,
                    seg_subr substr_dict skip_idx (slice i (Suc J) cs),
                    tok_cost cost_map (slice i (Suc J) cs))
              else (mo, mi, ms, tok_cost cost_map (slice i (Suc J) cs)))"
proof -
  have "cs ! J \<in> set cs" using ij by simp
  then have g: "py_get cost_map (cs ! J) = Inr (cost_map ! (cs ! J))"
    using cover by (simp add: py_get_def)
  have t: "tok_cost cost_map (slice i J cs) + cost_map ! (cs ! J) = tok_cost cost_map (slice i (Suc J) cs)"
    using ij by (simp add: slice_snoc tok_cost_snoc)
  show ?thesis
  proof (cases "substr_dict (slice i (Suc J) cs)")
    case None
    then show ?thesis
      unfolding inner_step_def
      by (simp add: g t option_at_def seg_cost_def seg_subr_def)
  next
    case (Some sub)
    show ?thesis
    proof (cases "Some (fst sub) = skip_idx")
      case True
      have "i < Suc J \<and> Suc J \<le> length cs \<and> substr_dict (slice i (Suc J) cs) = Some sub
              \<and> Some (fst sub) = skip_idx"
        using Some True ij by simp
      then have "i = 0 \<and> Suc J = length cs" using noassert by blast
      then have c: "(if i = 0 \<and> Suc J = length cs then A else B) = A" for A B :: 'b
        by simp
      show ?thesis
        unfolding inner_step_def using Some True
        by (simp add: g t option_at_def seg_cost_def seg_subr_def c)
    next
      case False
      then show ?thesis
        unfolding inner_step_def using Some
        by (simp add: g t option_at_def seg_cost_def seg_subr_def)
    qed
  qed
qed

lemma inner_loop:
  fixes emb :: "int \<Rightarrow> 'a::{linorder,plus}"
  assumes cover: "\<forall>c\<in>set cs. c < length cost_map"
    and noassert: "\<forall>j sub. i < j \<and> j \<le> length cs \<and> substr_dict (slice i j cs) = Some sub
                     \<and> Some (fst sub) = skip_idx \<longrightarrow> i = 0 \<and> j = length cs"
    and fin: "\<forall>j. i < j \<and> j \<le> length cs \<longrightarrow> results ! j = Fin (M j)"
    and iJ: "i \<le> J" "J \<le> length cs"
  defines "opt \<equiv> \<lambda>j. seg_cost emb cost_map substr_dict skip_idx (slice i j cs) + M j"
  shows "\<exists>mo mi ms.
           fold_err (inner_step emb cost_map substr_dict skip_idx cs results i) [Suc i..<Suc J]
             (PosInf, length cs, None, 0) = Inr (mo, mi, ms, tok_cost cost_map (slice i J cs))
           \<and> (J = i \<longrightarrow> mo = PosInf)
           \<and> (i < J \<longrightarrow> i < mi \<and> mi \<le> J \<and> mo = Fin (opt mi)
                \<and> ms = seg_subr substr_dict skip_idx (slice i mi cs)
                \<and> (\<forall>j. i < j \<and> j \<le> J \<longrightarrow> opt mi \<le> opt j)
                \<and> (\<forall>j. i < j \<and> j < mi \<longrightarrow> opt mi < opt j))"
  using iJ
proof (induction J rule: dec_induct)
  case base
  show ?case by (simp add: slice_same tok_cost_Nil)
next
  case (step J)
  let ?f = "inner_step emb cost_map substr_dict skip_idx cs results i"
  from step obtain mo mi ms where
    run: "fold_err ?f [Suc i..<Suc J] (PosInf, length cs, None, 0)
            = Inr (mo, mi, ms, tok_cost cost_map (slice i J cs))"
    and first: "J = i \<longrightarrow> mo = PosInf"
    and later: "i < J \<longrightarrow> i < mi \<and> mi \<le> J \<and> mo = Fin (opt mi)
                \<and> ms = seg_subr substr_dict skip_idx (slice i mi cs)
                \<and> (\<forall>j. i < j \<and> j \<le> J \<longrightarrow> opt mi \<le> opt j)
                \<and> (\<forall>j. i < j \<and> j < mi \<longrightarrow> opt mi < opt j)"
    by auto
  have J: "i \<le> J" "J < length cs" using step by simp_all
  have O: "option_at emb cost_map substr_dict skip_idx cs results i (Suc J) = Fin (opt (Suc J))"
    using fin J by (simp add: option_at_def opt_def)
  have up: "[Suc i..<Suc (Suc J)] = [Suc i..<Suc J] @ [Suc J]" using J by simp
  have next_run: "fold_err ?f [Suc i..<Suc (Suc J)] (PosInf, length cs, None, 0) =
      Inr (if ext_less (Fin (opt (Suc J))) mo
           then (Fin (opt (Suc J)), Suc J, seg_subr substr_dict skip_idx (slice i (Suc J) cs),
                 tok_cost cost_map (slice i (Suc J) cs))
           else (mo, mi, ms, tok_cost cost_map (slice i (Suc J) cs)))"
    unfolding up fold_err_append run
    using inner_step_eq [OF cover noassert J, of emb results mo mi ms]
    by (simp add: O)
  show ?case
  proof (cases "J = i")
    case True
    then have "mo = PosInf" using first by simp
    then have r: "fold_err ?f [Suc i..<Suc (Suc J)] (PosInf, length cs, None, 0) =
      Inr (Fin (opt (Suc J)), Suc J, seg_subr substr_dict skip_idx (slice i (Suc J) cs),
           tok_cost cost_map (slice i (Suc J) cs))"
      using next_run by simp
    have a: "\<forall>j. i < j \<and> j \<le> Suc J \<longrightarrow> opt (Suc J) \<le> opt j"
    proof (intro allI impI)
      fix j assume "i < j \<and> j \<le> Suc J"
      then have "j = Suc J" using True by simp
      then show "opt (Suc J) \<le> opt j" by simp
    qed
    have b: "\<forall>j. i < j \<and> j < Suc J \<longrightarrow> opt (Suc J) < opt j"
    proof (intro allI impI)
      fix j assume "i < j \<and> j < Suc J"
      then have False using True by arith
      then show "opt (Suc J) < opt j" ..
    qed
    show ?thesis
      apply (rule exI [of _ "Fin (opt (Suc J))"])
      apply (rule exI [of _ "Suc J"])
      apply (rule exI [of _ "seg_subr substr_dict skip_idx (slice i (Suc J) cs)"])
      using r a b True by simp
  next
    case False
    then have iJ: "i < J" using J by simp
    note inv = later [rule_format, OF iJ]
    show ?thesis
    proof (cases "opt (Suc J) < opt mi")
      case True
      have a: "\<forall>j. i < j \<and> j \<le> Suc J \<longrightarrow> opt (Suc J) \<le> opt j"
      proof (intro allI impI)
        fix j assume j: "i < j \<and> j \<le> Suc J"
        show "opt (Suc J) \<le> opt j"
        proof (cases "j = Suc J")
          case True then show ?thesis by simp
        next
          case False
          then have "opt mi \<le> opt j" using inv j by simp
          then show ?thesis using True by simp
        qed
      qed
      have b: "\<forall>j. i < j \<and> j < Suc J \<longrightarrow> opt (Suc J) < opt j"
      proof (intro allI impI)
        fix j assume j: "i < j \<and> j < Suc J"
        then have "opt mi \<le> opt j" using inv by simp
        then show "opt (Suc J) < opt j" using True by simp
      qed
      show ?thesis using next_run True inv a b iJ by simp
    next
      case False
      have a: "\<forall>j. i < j \<and> j \<le> Suc J \<longrightarrow> opt mi \<le> opt j"
      proof (intro allI impI)
        fix j assume j: "i < j \<and> j \<le> Suc J"
        show "opt mi \<le> opt j"
        proof (cases "j = Suc J")
          case True then show ?thesis using False by simp
        next
          case F: False
          then show ?thesis using inv j by simp
        qed
      qed
      show ?thesis using next_run False inv a iJ by simp
    qed
  qed
qed

lemma ext_le_Fin: "ext_le (Fin a) (Fin b) = (a \<le> b)"
  by (simp add: ext_le_def not_less)

lemma fin_Fin: "fin x \<noteq> None \<Longrightarrow> x = Fin (the (fin x))"
  by (cases x) simp_all

lemma choice_ok_cong:
  assumes "\<forall>j. k \<le> j \<longrightarrow> results' ! j = results ! j"
    and "nidx' ! k = nidx ! k" and "nsub' ! k = nsub ! k"
  shows "choice_ok emb cost_map substr_dict skip_idx cs results' nidx' nsub' k
         = choice_ok emb cost_map substr_dict skip_idx cs results nidx nsub k"
proof -
  have r: "results' ! k = results ! k" using assms(1) by simp
  have o: "option_at emb cost_map substr_dict skip_idx cs results' k j
           = option_at emb cost_map substr_dict skip_idx cs results k j" if "k < j" for j
    using assms(1) that by (simp add: option_at_def)
  have body: "(next_enc_idx ! k = Some j \<and> k < j \<and> j \<le> length cs
        \<and> results' ! k = option_at emb cost_map substr_dict skip_idx cs results' k j
        \<and> next_enc_substr ! k = seg_subr substr_dict skip_idx (slice k j cs)
        \<and> (\<forall>j'. k < j' \<and> j' \<le> length cs \<longrightarrow>
              ext_le (results' ! k) (option_at emb cost_map substr_dict skip_idx cs results' k j'))
        \<and> (\<forall>j'. k < j' \<and> j' < j \<longrightarrow>
              ext_less (results' ! k) (option_at emb cost_map substr_dict skip_idx cs results' k j')))
     = (next_enc_idx ! k = Some j \<and> k < j \<and> j \<le> length cs
        \<and> results ! k = option_at emb cost_map substr_dict skip_idx cs results k j
        \<and> next_enc_substr ! k = seg_subr substr_dict skip_idx (slice k j cs)
        \<and> (\<forall>j'. k < j' \<and> j' \<le> length cs \<longrightarrow>
              ext_le (results ! k) (option_at emb cost_map substr_dict skip_idx cs results k j'))
        \<and> (\<forall>j'. k < j' \<and> j' < j \<longrightarrow>
              ext_less (results ! k) (option_at emb cost_map substr_dict skip_idx cs results k j')))"
    for j next_enc_idx next_enc_substr
    unfolding r using o by (simp cong: conj_cong imp_cong)
  show ?thesis
    unfolding choice_ok_def assms(2) assms(3) body ..
qed

lemma choice_ok_new:
  fixes emb :: "int \<Rightarrow> 'a::{linorder,plus}"
  assumes fin: "\<forall>j. k < j \<and> j \<le> length cs \<longrightarrow> results ! j = Fin (M j)"
    and k: "k < length cs" "k < length results" "k < length nidx" "k < length nsub"
    and mi: "k < mi" "mi \<le> length cs"
    and least: "\<forall>j. k < j \<and> j \<le> length cs \<longrightarrow>
        seg_cost emb cost_map substr_dict skip_idx (slice k mi cs) + M mi
        \<le> seg_cost emb cost_map substr_dict skip_idx (slice k j cs) + M j"
    and first: "\<forall>j. k < j \<and> j < mi \<longrightarrow>
        seg_cost emb cost_map substr_dict skip_idx (slice k mi cs) + M mi
        < seg_cost emb cost_map substr_dict skip_idx (slice k j cs) + M j"
  shows "choice_ok emb cost_map substr_dict skip_idx cs
           (results[k := Fin (seg_cost emb cost_map substr_dict skip_idx (slice k mi cs) + M mi)])
           (nidx[k := Some mi])
           (nsub[k := seg_subr substr_dict skip_idx (slice k mi cs)]) k"
proof -
  let ?r = "results[k := Fin (seg_cost emb cost_map substr_dict skip_idx (slice k mi cs) + M mi)]"
  have o: "option_at emb cost_map substr_dict skip_idx cs ?r k j
           = Fin (seg_cost emb cost_map substr_dict skip_idx (slice k j cs) + M j)"
    if "k < j" "j \<le> length cs" for j
    using that fin by (simp add: option_at_def)
  have a: "\<forall>j'. k < j' \<and> j' \<le> length cs \<longrightarrow>
              ext_le (?r ! k) (option_at emb cost_map substr_dict skip_idx cs ?r k j')"
    using o least k by (simp add: ext_le_Fin)
  have b: "\<forall>j'. k < j' \<and> j' < mi \<longrightarrow>
              ext_less (?r ! k) (option_at emb cost_map substr_dict skip_idx cs ?r k j')"
  proof (intro allI impI)
    fix j' assume j: "k < j' \<and> j' < mi"
    then have "j' \<le> length cs" using mi by simp
    then show "ext_less (?r ! k) (option_at emb cost_map substr_dict skip_idx cs ?r k j')"
      using o [of j'] first j k by simp
  qed
  show ?thesis
    unfolding choice_ok_def
    apply (rule exI [of _ mi])
    using a b o [OF mi] k mi by simp
qed

lemma outer_loop:
  fixes emb :: "int \<Rightarrow> 'a::{linorder,plus}"
  assumes cover: "\<forall>c\<in>set cs. c < length cost_map"
    and noassert: "\<forall>i j sub. i < j \<and> j \<le> length cs \<and> substr_dict (slice i j cs) = Some sub
                     \<and> Some (fst sub) = skip_idx \<longrightarrow> i = 0 \<and> j = length cs"
    and i: "i \<le> length cs"
  shows "\<exists>results nidx nsub.
           fold_err (outer_step emb cost_map substr_dict skip_idx cs) (rev [i..<length cs])
             (replicate (length cs + 1) (Fin (emb 0)), replicate (length cs) None,
              replicate (length cs) None) = Inr (results, nidx, nsub)
           \<and> length results = length cs + 1 \<and> length nidx = length cs
           \<and> length nsub = length cs \<and> results ! length cs = Fin (emb 0)
           \<and> (\<forall>k. k \<le> length cs \<longrightarrow> fin (results ! k) \<noteq> None)
           \<and> (\<forall>k. i \<le> k \<and> k < length cs \<longrightarrow>
                 choice_ok emb cost_map substr_dict skip_idx cs results nidx nsub k)"
  using i
proof (induction i rule: inc_induct)
  case base
  have r: "replicate (length cs + 1) (Fin (emb 0)) ! k = Fin (emb 0)" if "k \<le> length cs" for k
    using that nth_replicate [of k "length cs + 1" "Fin (emb 0)"] by (simp del: replicate_Suc)
  have v: "(length cs \<le> k \<and> k < length cs) = False" for k by arith
  show ?case using r by (simp del: replicate_Suc add: v)
next
  case (step k)
  let ?init = "(replicate (length cs + 1) (Fin (emb 0)), replicate (length cs) (None :: nat option),
              replicate (length cs) (None :: nat option))"
  let ?g = "outer_step emb cost_map substr_dict skip_idx cs"
  from step.IH obtain results nidx nsub where
    run: "fold_err ?g (rev [Suc k..<length cs]) ?init = Inr (results, nidx, nsub)"
    and len: "length results = length cs + 1" "length nidx = length cs" "length nsub = length cs"
    and last: "results ! length cs = Fin (emb 0)"
    and finite: "\<forall>j. j \<le> length cs \<longrightarrow> fin (results ! j) \<noteq> None"
    and ok: "\<forall>j. Suc k \<le> j \<and> j < length cs \<longrightarrow>
                 choice_ok emb cost_map substr_dict skip_idx cs results nidx nsub j"
    by blast
  define M where "M = (\<lambda>j. the (fin (results ! j)))"
  have fin: "\<forall>j. k < j \<and> j \<le> length cs \<longrightarrow> results ! j = Fin (M j)"
  proof (intro allI impI)
    fix j assume "k < j \<and> j \<le> length cs"
    then have "fin (results ! j) \<noteq> None" using finite by simp
    then show "results ! j = Fin (M j)" unfolding M_def by (rule fin_Fin)
  qed
  have na: "\<forall>j sub. k < j \<and> j \<le> length cs \<and> substr_dict (slice k j cs) = Some sub
              \<and> Some (fst sub) = skip_idx \<longrightarrow> k = 0 \<and> j = length cs"
    using noassert by blast
  have kn: "k \<le> length cs" "length cs \<le> length cs" "k < length cs" using step.hyps by simp_all
  from inner_loop [OF cover na fin kn(1) kn(2), of emb]
  obtain mo mi ms where
    inner: "fold_err (inner_step emb cost_map substr_dict skip_idx cs results k)
              [Suc k..<Suc (length cs)] (PosInf, length cs, None, 0)
            = Inr (mo, mi, ms, tok_cost cost_map (slice k (length cs) cs))"
    and props: "k < mi \<and> mi \<le> length cs
       \<and> mo = Fin (seg_cost emb cost_map substr_dict skip_idx (slice k mi cs) + M mi)
       \<and> ms = seg_subr substr_dict skip_idx (slice k mi cs)
       \<and> (\<forall>j. k < j \<and> j \<le> length cs \<longrightarrow>
            seg_cost emb cost_map substr_dict skip_idx (slice k mi cs) + M mi
            \<le> seg_cost emb cost_map substr_dict skip_idx (slice k j cs) + M j)
       \<and> (\<forall>j. k < j \<and> j < mi \<longrightarrow>
            seg_cost emb cost_map substr_dict skip_idx (slice k mi cs) + M mi
            < seg_cost emb cost_map substr_dict skip_idx (slice k j cs) + M j)"
    using kn(3) by blast
  let ?r = "results[k := mo]" and ?ni = "nidx[k := Some mi]" and ?ns = "nsub[k := ms]"
  have one: "?g k (results, nidx, nsub) = Inr (?r, ?ni, ?ns)"
    unfolding outer_step_def using inner by simp
  have up: "rev [k..<length cs] = rev [Suc k..<length cs] @ [k]"
    using kn(3) by (simp add: upt_conv_Cons)
  have all: "fold_err ?g (rev [k..<length cs]) ?init = Inr (?r, ?ni, ?ns)"
    unfolding up fold_err_append run using one by simp
  have here: "choice_ok emb cost_map substr_dict skip_idx cs ?r ?ni ?ns k"
    using choice_ok_new [OF fin kn(3), of nidx nsub mi emb cost_map substr_dict skip_idx]
      props len kn(3) by simp
  have above: "choice_ok emb cost_map substr_dict skip_idx cs ?r ?ni ?ns j"
    if "Suc k \<le> j" "j < length cs" for j
  proof -
    have "choice_ok emb cost_map substr_dict skip_idx cs ?r ?ni ?ns j
          = choice_ok emb cost_map substr_dict skip_idx cs results nidx nsub j"
      by (rule choice_ok_cong) (use that in auto)
    then show ?thesis using ok that by simp
  qed
  have cho: "\<forall>j. k \<le> j \<and> j < length cs \<longrightarrow>
               choice_ok emb cost_map substr_dict skip_idx cs ?r ?ni ?ns j"
  proof (intro allI impI)
    fix j assume j: "k \<le> j \<and> j < length cs"
    show "choice_ok emb cost_map substr_dict skip_idx cs ?r ?ni ?ns j"
    proof (cases "j = k")
      case True then show ?thesis using here by simp
    next
      case False then show ?thesis using above [of j] j by simp
    qed
  qed
  have fin': "\<forall>j. j \<le> length cs \<longrightarrow> fin (?r ! j) \<noteq> None"
  proof (intro allI impI)
    fix j assume j: "j \<le> length cs"
    show "fin (?r ! j) \<noteq> None"
    proof (cases "j = k")
      case True then show ?thesis using props len kn(3) by simp
    next
      case False then show ?thesis using finite j by simp
    qed
  qed
  have last': "?r ! length cs = Fin (emb 0)" using last kn(3) by simp
  show ?case
    apply (rule exI [of _ ?r])
    apply (rule exI [of _ ?ni])
    apply (rule exI [of _ ?ns])
    using all len last' fin' cho by simp
qed

lemma walk_ok:
  assumes len: "length nidx = n"
    and fwd: "\<forall>k<n. \<exists>j. nidx ! k = Some j \<and> k < j \<and> j \<le> n"
  shows "cur \<le> n \<Longrightarrow> n - cur < fuel \<Longrightarrow>
         \<exists>enc'. walk fuel nidx nsub cur enc = Inr enc'
           \<and> set enc' \<subseteq> set enc \<union> {(p, idx). p < n \<and> nsub ! p = Some idx}"
proof (induction fuel arbitrary: cur enc)
  case 0
  then show ?case by simp
next
  case (Suc fuel)
  show ?case
  proof (cases "cur < n")
    case False
    then show ?thesis using len by simp
  next
    case True
    then obtain j where j: "nidx ! cur = Some j" "cur < j" "j \<le> n" using fwd by blast
    let ?enc = "case nsub ! cur of Some s \<Rightarrow> enc @ [(cur, s)] | None \<Rightarrow> enc"
    have "n - j < fuel" using Suc.prems j by arith
    from Suc.IH [OF j(3) this, of ?enc] obtain enc' where
      w: "walk fuel nidx nsub j ?enc = Inr enc'"
      and s: "set enc' \<subseteq> set ?enc \<union> {(p, idx). p < n \<and> nsub ! p = Some idx}"
      by blast
    have "set ?enc \<subseteq> set enc \<union> {(p, idx). p < n \<and> nsub ! p = Some idx}"
      using True by (cases "nsub ! cur") auto
    then have "set enc' \<subseteq> set enc \<union> {(p, idx). p < n \<and> nsub ! p = Some idx}"
      using s by blast
    moreover have "walk (Suc fuel) nidx nsub cur enc = Inr enc'"
      using w j True len by simp
    ultimately show ?thesis by blast
  qed
qed








lemma optimize_charstring_tables:
  fixes emb :: "int \<Rightarrow> 'a::{linorder,plus}"
  assumes cover: "\<forall>c\<in>set (charstring_of arg). c < length cost_map"
    and noassert: "\<forall>i j sub. i < j \<and> j \<le> length (charstring_of arg)
                     \<and> substr_dict (slice i j (charstring_of arg)) = Some sub
                     \<and> Some (fst sub) = skip_idx_of arg \<longrightarrow> i = 0 \<and> j = length (charstring_of arg)"
  shows "\<exists>results nidx nsub enc.
           dp_tables emb cost_map substr_dict (skip_idx_of arg) (charstring_of arg)
             = Inr (results, nidx, nsub)
           \<and> walk (Suc (length (charstring_of arg))) nidx nsub 0 [] = Inr enc
           \<and> optimize_charstring emb arg cost_map substr_dict = Inr (enc, results ! 0)
           \<and> results ! length (charstring_of arg) = Fin (emb 0)
           \<and> (\<forall>k. k \<le> length (charstring_of arg) \<longrightarrow> fin (results ! k) \<noteq> None)
           \<and> (\<forall>k. k < length (charstring_of arg) \<longrightarrow>
                 choice_ok emb cost_map substr_dict (skip_idx_of arg) (charstring_of arg)
                   results nidx nsub k)
           \<and> (\<forall>e\<in>set enc. Some (snd e) \<noteq> skip_idx_of arg)"
proof -
  let ?cs = "charstring_of arg" and ?sk = "skip_idx_of arg"
  from outer_loop [OF cover noassert, of 0 emb] obtain results nidx nsub where
    run: "dp_tables emb cost_map substr_dict ?sk ?cs = Inr (results, nidx, nsub)"
    and len: "length nidx = length ?cs"
    and last: "results ! length ?cs = Fin (emb 0)"
    and finite: "\<forall>k. k \<le> length ?cs \<longrightarrow> fin (results ! k) \<noteq> None"
    and ok: "\<forall>k. k < length ?cs \<longrightarrow> choice_ok emb cost_map substr_dict ?sk ?cs results nidx nsub k"
    unfolding dp_tables_def by auto
  have fwd: "\<forall>k<length ?cs. \<exists>j. nidx ! k = Some j \<and> k < j \<and> j \<le> length ?cs"
    using ok unfolding choice_ok_def by blast
  from walk_ok [OF len fwd, of 0 "Suc (length ?cs)" nsub "[]"] obtain enc where
    w: "walk (Suc (length ?cs)) nidx nsub 0 [] = Inr enc"
    and sub: "set enc \<subseteq> {(p, idx). p < length ?cs \<and> nsub ! p = Some idx}"
    by auto
  have noskip: "\<forall>e\<in>set enc. Some (snd e) \<noteq> ?sk"
  proof
    fix e assume "e \<in> set enc"
    then have p: "fst e < length ?cs" "nsub ! fst e = Some (snd e)" using sub by auto
    from ok p(1) obtain j where "nsub ! fst e = seg_subr substr_dict ?sk (slice (fst e) j ?cs)"
      unfolding choice_ok_def by blast
    then have "seg_subr substr_dict ?sk (slice (fst e) j ?cs) = Some (snd e)" using p(2) by simp
    then show "Some (snd e) \<noteq> ?sk"
      unfolding seg_subr_def by (auto split: option.splits if_splits)
  qed
  have "optimize_charstring emb arg cost_map substr_dict = Inr (enc, results ! 0)"
    unfolding optimize_charstring_def using run w by simp
  then show ?thesis using run w last finite ok noskip by blast
qed

lemma fold_dict_index:
  assumes "fold (\<lambda>(idx, v) d. d(v \<mapsto> (idx, price idx))) (enumerate n vals) d0 key = Some (k, p)"
  shows "(n \<le> k \<and> k < n + length vals \<and> vals ! (k - n) = key) \<or> d0 key = Some (k, p)"
  using assms
proof (induction vals arbitrary: n d0)
  case Nil
  then show ?case by simp
next
  case (Cons v vs)
  from Cons.prems have
    "fold (\<lambda>(idx, v) d. d(v \<mapsto> (idx, price idx))) (enumerate (Suc n) vs)
       (d0(v \<mapsto> (n, price n))) key = Some (k, p)"
    by (simp del: fun_upd_apply)
  from Cons.IH [OF this] show ?case
  proof
    assume a: "Suc n \<le> k \<and> k < Suc n + length vs \<and> vs ! (k - Suc n) = key"
    then have "k - n = Suc (k - Suc n)" by arith
    then show ?thesis using a by simp
  next
    assume "(d0(v \<mapsto> (n, price n))) key = Some (k, p)"
    then show ?thesis by (cases "key = v") simp_all
  qed
qed

lemma build_dict_index:
  "build_dict price vals key = Some (k, p) \<Longrightarrow> k < length vals \<and> vals ! k = key"
  unfolding build_dict_def using fold_dict_index [of price 0 vals Map.empty key k p] by simp

lemma slice_whole:
  assumes "i < j" "j \<le> length s" "slice i j s = s"
  shows "i = 0 \<and> j = length s"
proof -
  have "length (slice i j s) = j - i" using assms(1,2) by (simp add: slice_def)
  then have "j - i = length s" using assms(3) by simp
  then show ?thesis using assms(1,2) by arith
qed




text \<open>
  Claim C7. Let the table be the one built from the list of substrings, and let substring
  \<open>k\<close> be optimized with \<open>skip_idx = k\<close>, every code of it having a cost. Then every slice of it
  that the table holds under the index \<open>k\<close> is the whole of it, so that the assertion of line
  970 holds whenever it is reached; \<^verbatim>\<open>optimize_charstring\<close> returns; and no item of the
  encoding it returns calls substring \<open>k\<close>.
\<close>

theorem self_call_excluded:
  fixes emb :: "int \<Rightarrow> 'a::{linorder,plus}"
  assumes k: "k < length vals"
    and cover: "\<forall>c\<in>set (vals ! k). c < length cost_map"
  shows "(\<forall>i j p. i < j \<and> j \<le> length (vals ! k)
            \<and> build_dict price vals (slice i j (vals ! k)) = Some (k, p)
            \<longrightarrow> i = 0 \<and> j = length (vals ! k))
         \<and> (\<exists>enc mc. optimize_charstring emb (Enumerated k (vals ! k)) cost_map (build_dict price vals)
                        = Inr (enc, mc)
              \<and> k \<notin> snd ` set enc)"
proof -
  have a: "i = 0 \<and> j = length (vals ! k)"
    if "i < j" "j \<le> length (vals ! k)" "build_dict price vals (slice i j (vals ! k)) = Some (k, p)"
    for i j p
    using build_dict_index [OF that(3)] slice_whole [OF that(1,2)] by simp
  have na: "\<forall>i j sub. i < j \<and> j \<le> length (charstring_of (Enumerated k (vals ! k)))
       \<and> build_dict price vals (slice i j (charstring_of (Enumerated k (vals ! k)))) = Some sub
       \<and> Some (fst sub) = skip_idx_of (Enumerated k (vals ! k))
       \<longrightarrow> i = 0 \<and> j = length (charstring_of (Enumerated k (vals ! k)))"
  proof (intro allI impI)
    fix i j sub
    assume h: "i < j \<and> j \<le> length (charstring_of (Enumerated k (vals ! k)))
       \<and> build_dict price vals (slice i j (charstring_of (Enumerated k (vals ! k)))) = Some sub
       \<and> Some (fst sub) = skip_idx_of (Enumerated k (vals ! k))"
    then have "build_dict price vals (slice i j (vals ! k)) = Some (k, snd sub)"
      by (cases sub) auto
    then show "i = 0 \<and> j = length (charstring_of (Enumerated k (vals ! k)))"
      using a [of i j "snd sub"] h by simp
  qed
  have cv: "\<forall>c\<in>set (charstring_of (Enumerated k (vals ! k))). c < length cost_map"
    using cover by simp
  from optimize_charstring_tables [OF cv na, of emb] obtain enc mc where
    r: "optimize_charstring emb (Enumerated k (vals ! k)) cost_map (build_dict price vals)
          = Inr (enc, mc)"
    and ns: "\<forall>e\<in>set enc. Some (snd e) \<noteq> skip_idx_of (Enumerated k (vals ! k))"
    by blast
  have "k \<notin> snd ` set enc" using ns by auto
  then show ?thesis using a r by blast
qed

theorem self_call_excluded_witness:
  "optimize_charstring rat_of_int (Enumerated 1 [0, 1, 0, 1]) [2, 3]
     (build_dict (\<lambda>idx. [3, 6] ! idx) [[0, 1], [0, 1, 0, 1]]) = Inr ([(0, 0), (2, 0)], Fin 6)
   \<and> build_dict (\<lambda>idx. [3, 6 :: rat] ! idx) [[0, 1], [0, 1, 0, 1]] [0, 1, 0, 1] = Some (1, 6)
   \<and> 1 \<notin> snd ` set [(0 :: nat, 0 :: nat), (2, 0)]"
proof -
  have e: "optimize_charstring rat_of_int (Enumerated 1 [0, 1, 0, 1]) [2, 3]
     (build_dict (\<lambda>idx. [3, 6] ! idx) [[0, 1], [0, 1, 0, 1]]) = Inr ([(0, 0), (2, 0)], Fin 6)"
    by code_simp
  have d: "build_dict (\<lambda>idx. [3, 6 :: rat] ! idx) [[0, 1], [0, 1, 0, 1]] [0, 1, 0, 1] = Some (1, 6)"
    by code_simp
  have "(1 :: nat) < length [[0 :: nat, 1], [0, 1, 0, 1]]" by simp
  moreover have "\<forall>c\<in>set ([[0 :: nat, 1], [0, 1, 0, 1]] ! 1). c < length [2 :: int, 3]" by simp
  ultimately have "\<exists>enc mc. optimize_charstring rat_of_int
       (Enumerated 1 ([[0, 1], [0, 1, 0, 1]] ! 1)) [2, 3]
       (build_dict (\<lambda>idx. [3, 6] ! idx) [[0, 1], [0, 1, 0, 1]]) = Inr (enc, mc)
       \<and> 1 \<notin> snd ` set enc"
    using self_call_excluded [of 1 "[[0, 1], [0, 1, 0, 1]]" "[2, 3]" "\<lambda>idx. [3, 6 :: rat] ! idx" rat_of_int]
    by blast
  then have "1 \<notin> snd ` set [(0 :: nat, 0 :: nat), (2, 0)]" using e by simp
  then show ?thesis using e d by simp
qed


section \<open>Bias-aware reordering\<close>

lemma take_slice: "a \<le> b \<Longrightarrow> take a xs @ slice a b xs = take b xs"
  using take_add [of a "b - a" xs] by (simp add: slice_def)

lemma slice_0: "slice 0 b xs = take b xs"
  by (simp add: slice_def)

lemma mset_split3:
  "a \<le> b \<Longrightarrow> mset (take a xs) + mset (slice a b xs) + mset (drop b xs) = mset xs"
proof -
  assume "a \<le> b"
  then have "mset (take a xs @ slice a b xs) + mset (drop b xs) = mset (take b xs @ drop b xs)"
    by (simp only: take_slice mset_append)
  then show ?thesis by simp
qed

lemma mset_rearrange: "mset (rearrange bias xs) = mset xs"
proof -
  have a: "mset (slice 216 1240 xs) + mset (take 216 xs) + mset (drop 1240 xs) = mset xs"
    using mset_split3 [of 216 1240 xs] by (simp add: ac_simps)
  have "take 216 xs @ slice 216 1240 xs = take 1240 xs"
    by (rule take_slice) simp
  moreover have "take 1240 xs @ slice 1240 2264 xs = take 2264 xs"
    by (rule take_slice) simp
  ultimately have b1: "mset (take 2264 xs)
      = mset (take 216 xs) + mset (slice 216 1240 xs) + mset (slice 1240 2264 xs)"
    by (metis mset_append)
  have b: "mset (take 2264 xs) + mset (slice 2264 33901 xs) + mset (drop 33901 xs) = mset xs"
    using mset_split3 [of 2264 33901 xs] by simp
  show ?thesis
    using a b b1 by (auto simp: rearrange_def slice_0 ac_simps)
qed

lemma distinct_rearrange: "distinct xs \<Longrightarrow> distinct (rearrange bias xs)"
  using mset_rearrange [of bias xs] by (metis mset_eq_imp_distinct_iff)

lemma length_rearrange: "length (rearrange bias xs) = length xs"
  using mset_rearrange [of bias xs] by (metis size_mset)

lemma set_rearrange: "set (rearrange bias xs) = set xs"
  using mset_rearrange [of bias xs] by (metis set_mset_mset)

lemma fold_update_position_other:
  "r \<notin> set xs \<Longrightarrow> fold update_position (enumerate n xs) h r = h r"
  by (induction xs arbitrary: n h) (auto simp: update_position_def)

lemma fold_update_position_nth:
  "distinct xs \<Longrightarrow> i < length xs \<Longrightarrow>
   position (fold update_position (enumerate n xs) h (xs ! i)) = Some (n + i)"
proof (induction xs arbitrary: n h i)
  case Nil
  then show ?case by simp
next
  case (Cons x xs)
  show ?case
  proof (cases i)
    case 0
    have "x \<notin> set xs" using Cons.prems by simp
    then have "fold update_position (enumerate (Suc n) xs) (update_position (n, x) h) x
        = update_position (n, x) h x"
      by (rule fold_update_position_other)
    moreover have "position (update_position (n, x) h x) = Some n"
      by (simp add: update_position_def)
    ultimately show ?thesis using 0 by simp
  next
    case (Suc j)
    then show ?thesis using Cons.prems Cons.IH [of j "Suc n" "update_position (n, x) h"] by simp
  qed
qed

lemma update_positions_nth:
  "distinct xs \<Longrightarrow> i < length xs \<Longrightarrow> position (update_positions xs h (xs ! i)) = Some i"
  using fold_update_position_nth [of xs i 0 h] by (simp add: update_positions_def)

lemma distinct_sort_by_usages: "distinct (sort_by_usages h xs) = distinct xs"
  by (simp add: sort_by_usages_def sort_desc_def)

lemma length_sort_by_usages: "length (sort_by_usages h xs) = length xs"
  by (simp add: sort_by_usages_def sort_desc_def)

lemma set_sort_by_usages: "set (sort_by_usages h xs) = set xs"
  by (simp add: sort_by_usages_def sort_desc_def)

lemma sort_uniform: "sort_by_usages uniform_heap xs = xs"
  by (simp add: sort_by_usages_def sort_desc_def uniform_heap_def sort_key_const)

text \<open>
  Claim C10, as the code has it. For every table of distinct subroutines whose bias is
  32768, the final order is, of the table sorted by usages descending: the entries at
  indices \<open>[2264..33901)\<close>, then \<open>[216..1240)\<close>, then \<open>[0..216)\<close>, then \<open>[1240..2264)\<close>, then
  the entries from index 33901 on; and every subroutine's \<^verbatim>\<open>_position\<close> is its index in
  this final order.
\<close>

theorem reorder_table_32768:
  assumes "distinct subr_arr" and "calcSubrBias subr_arr = 32768"
  shows "fst (reorder_table (calcSubrBias subr_arr) subr_arr h)
       = slice 2264 33901 (sort_by_usages h subr_arr) @ slice 216 1240 (sort_by_usages h subr_arr)
           @ slice 0 216 (sort_by_usages h subr_arr) @ slice 1240 2264 (sort_by_usages h subr_arr)
           @ drop 33901 (sort_by_usages h subr_arr)
     \<and> (\<forall>i<length subr_arr.
           position (snd (reorder_table (calcSubrBias subr_arr) subr_arr h)
                      (fst (reorder_table (calcSubrBias subr_arr) subr_arr h) ! i)) = Some i)"
proof -
  let ?arr = "rearrange 32768 (sort_by_usages h subr_arr)"
  have r: "reorder_table (calcSubrBias subr_arr) subr_arr h = (?arr, update_positions ?arr h)"
    using assms(2) by (simp add: reorder_table_def Let_def)
  have "distinct ?arr"
    using assms(1) distinct_rearrange distinct_sort_by_usages by metis
  moreover have "length ?arr = length subr_arr"
    by (simp add: length_rearrange length_sort_by_usages)
  ultimately have "\<forall>i<length subr_arr. position (update_positions ?arr h (?arr ! i)) = Some i"
    using update_positions_nth by metis
  then show ?thesis unfolding r by (simp add: rearrange_def)
qed

theorem reorder_table_32768_witness:
  "distinct [0..<33901] \<and> calcSubrBias [0..<33901] = 32768
   \<and> fst (reorder_table (calcSubrBias [0..<33901]) [0..<33901] uniform_heap) ! 31636 = 33900
   \<and> position (snd (reorder_table (calcSubrBias [0..<33901]) [0..<33901] uniform_heap) 33900)
       = Some 31636"
proof -
  have d: "distinct [0..<33901]" by simp
  have b: "calcSubrBias [0..<33901] = 32768" by (simp add: calcSubrBias_def)
  have e: "fst (reorder_table (calcSubrBias [0..<33901]) [0..<33901] uniform_heap) ! 31636
      = 33900"
    by (simp add: b reorder_table_def Let_def sort_uniform rearrange_def slice_def nth_append
        del: upt_rec_numeral)
  have "\<forall>i<length [0..<33901].
      position (snd (reorder_table (calcSubrBias [0..<33901]) [0..<33901] uniform_heap)
        (fst (reorder_table (calcSubrBias [0..<33901]) [0..<33901] uniform_heap) ! i)) = Some i"
    using reorder_table_32768 [OF d b, of uniform_heap] by (rule conjunct2)
  then have "31636 < length [0..<33901] \<longrightarrow>
      position (snd (reorder_table (calcSubrBias [0..<33901]) [0..<33901] uniform_heap)
        (fst (reorder_table (calcSubrBias [0..<33901]) [0..<33901] uniform_heap) ! 31636))
      = Some 31636"
    by (rule spec)
  then have "position (snd (reorder_table (calcSubrBias [0..<33901]) [0..<33901] uniform_heap)
        (fst (reorder_table (calcSubrBias [0..<33901]) [0..<33901] uniform_heap) ! 31636))
      = Some 31636"
    by simp
  then have "position (snd (reorder_table (calcSubrBias [0..<33901]) [0..<33901] uniform_heap)
        33900) = Some 31636"
    by (simp only: e)
  then show ?thesis using d b e by simp
qed

text \<open>
  The order the claim words differs from the code's on a table of 33901 subroutines of
  equal usages: the code puts the entry of sorted index 33900 at position 31636, where
  the claimed order has the entry of sorted index 216.
\<close>

theorem claimed_order_32768_counterexample:
  "calcSubrBias [0..<33901] = 32768
   \<and> fst (reorder_table (calcSubrBias [0..<33901]) [0..<33901] uniform_heap) ! 31636 = 33900
   \<and> claimed_order_32768 (sort_by_usages uniform_heap [0..<33901]) ! 31636 = 216"
proof -
  have b: "calcSubrBias [0..<33901] = 32768" by (simp add: calcSubrBias_def)
  have e: "fst (reorder_table (calcSubrBias [0..<33901]) [0..<33901] uniform_heap) ! 31636
      = 33900"
    by (simp add: b reorder_table_def Let_def sort_uniform rearrange_def slice_def nth_append
        del: upt_rec_numeral)
  have c: "claimed_order_32768 (sort_by_usages uniform_heap [0..<33901]) ! 31636 = 216"
    by (simp add: sort_uniform claimed_order_32768_def slice_def nth_append
        del: upt_rec_numeral)
  show ?thesis using b e c by simp
qed


section \<open>Nesting depth of the placed subroutines\<close>

lemma same_nesting_refl: "same_nesting h h"
  by (simp add: same_nesting_def)

lemma same_nesting_trans: "same_nesting h h1 \<Longrightarrow> same_nesting h1 h2 \<Longrightarrow> same_nesting h h2"
  by (simp add: same_nesting_def)

lemma set_flatten_depth: "max_call_depth (set_flatten xs h s) = max_call_depth (h s)"
  unfolding set_flatten_def by (induction xs arbitrary: h) auto

lemma set_flatten_flatten: "flatten (set_flatten xs h s) = (flatten (h s) \<or> s \<in> set xs)"
  unfolding set_flatten_def by (induction xs arbitrary: h) auto

lemma same_nesting_update_positions: "same_nesting h (update_positions xs h)"
proof -
  have "same_nesting h (fold update_position ps h)" for ps
  proof (induction ps arbitrary: h)
    case Nil
    then show ?case by (simp add: same_nesting_refl)
  next
    case (Cons p ps)
    have "same_nesting h (update_position p h)"
      by (simp add: same_nesting_def update_position_def)
    then show ?case using Cons [of "update_position p h"] same_nesting_trans by auto
  qed
  then show ?thesis by (simp add: update_positions_def)
qed

lemma reorder_tables_props:
  "reorder_tables ts h = (ts', h') \<Longrightarrow> same_nesting h h' \<and> map set ts' = map set ts"
proof (induction ts arbitrary: h ts' h')
  case Nil
  then show ?case by (simp add: same_nesting_refl)
next
  case (Cons t ts)
  obtain arr h1 where a: "reorder_table (calcSubrBias t) t h = (arr, h1)" by fastforce
  obtain arrs h2 where b: "reorder_tables ts h1 = (arrs, h2)" by fastforce
  have c: "ts' = arr # arrs" "h' = h2" using Cons.prems a b by auto
  have "same_nesting h h1" "set arr = set t"
    using a same_nesting_update_positions
    by (auto simp: reorder_table_def Let_def set_rearrange set_sort_by_usages)
  then show ?case using Cons.IH [OF b] c same_nesting_trans by auto
qed

lemma same_nesting_emit_flattened:
  "emit_flattened chstrings rev_keymap gbias lbias subr h = Inr h' \<Longrightarrow> same_nesting h h'"
  by (auto simp: emit_flattened_def same_nesting_def split: if_splits dest!: bind_err_Inr)

lemma same_nesting_emit_placed:
  "emit_placed chstrings rev_keymap gbias lbias sel subr h = Inr h' \<Longrightarrow> same_nesting h h'"
  by (auto simp: emit_placed_def same_nesting_def Let_def split: if_splits dest!: bind_err_Inr)

lemma emission_stage_props:
  assumes "emission_stage chstrings rev_keymap fdlen (h, g, l, bad) = Inr (h', g', l')"
  shows "same_nesting h h' \<and> set g' = set g \<and> map set l' = map set l"
proof -
  obtain tables h1 where r: "reorder_tables (g # l) h = (tables, h1)" by fastforce
  from assms r obtain h2 where
    e1: "fold_err (emit_flattened chstrings rev_keymap (calcSubrBias g) (map calcSubrBias l))
          (sort_asc (\<lambda>s. int (subr_length (h1 s))) bad) h1 = Inr h2"
    and e2: "fold_err (\<lambda>(subr_arr, sel). fold_err
              (emit_placed chstrings rev_keymap (calcSubrBias g) (map calcSubrBias l) sel) subr_arr)
              (zip tables (None # map Some [0..<fdlen])) h2 = Inr h'"
    and t: "g' = hd tables" "l' = tl tables"
    by (auto simp: emission_stage_def Let_def dest!: bind_err_Inr)
  have s1: "same_nesting h h1" and ts: "map set tables = map set (g # l)"
    using reorder_tables_props [OF r] by auto
  have s2: "same_nesting h h2"
    by (rule fold_err_invariant [where P = "same_nesting h", OF e1 s1])
      (auto dest: same_nesting_emit_flattened same_nesting_trans)
  have inner: "same_nesting h t'" if "same_nesting h t" and
    "fold_err (emit_placed chstrings rev_keymap (calcSubrBias g) (map calcSubrBias l) sel) arr t = Inr t'"
    for t t' sel arr
    by (rule fold_err_invariant [where P = "same_nesting h", OF that(2,1)])
      (auto dest: same_nesting_emit_placed same_nesting_trans)
  have s3: "same_nesting h h'"
    by (rule fold_err_invariant [where P = "same_nesting h", OF e2 s2]) (auto dest: inner)
  obtain tg tl where tt: "tables = tg # tl" using ts by (cases tables) auto
  show ?thesis using s3 ts t tt by auto
qed

lemma depth_kept_refl: "depth_kept h h"
  by (simp add: depth_kept_def)

lemma depth_kept_trans: "depth_kept h h1 \<Longrightarrow> depth_kept h1 h2 \<Longrightarrow> depth_kept h h2"
  by (simp add: depth_kept_def)

lemma depth_kept_set: "depth_kept h (h(s := (h s)\<lparr>max_call_depth := Some d\<rparr>))"
  by (simp add: depth_kept_def)

lemma increment_callees_depth_kept:
  "(\<forall>h'. increment_subr_depth n subr depth h = Inr h' \<longrightarrow>
      depth_kept h h' \<and> max_call_depth (h' subr) \<noteq> None)"
  "(\<forall>h'. callees_loop n callees depth h = Inr h' \<longrightarrow> depth_kept h h')"
proof (induction n subr depth h and n callees depth h
    rule: increment_subr_depth_callees_loop.induct)
  case (1 subr depth h)
  then show ?case by simp
next
  case (2 n subr depth h)
  let ?h1 = "if depth_below h subr depth
             then h(subr := (h subr)\<lparr>max_call_depth := Some depth\<rparr>) else h"
  have k: "depth_kept h ?h1" by (simp add: depth_kept_refl depth_kept_set)
  have d: "max_call_depth (?h1 subr) \<noteq> None"
    by (auto simp: depth_below_def split: option.splits)
  show ?case
  proof (intro allI impI)
    fix h'
    assume "increment_subr_depth (Suc n) subr depth h = Inr h'"
    then have "callees_loop n (map snd (encoding (?h1 subr))) depth ?h1 = Inr h'"
      by (simp add: Let_def)
    then have "depth_kept ?h1 h'" using 2 [of ?h1] by simp
    then show "depth_kept h h' \<and> max_call_depth (h' subr) \<noteq> None"
      using k d depth_kept_trans [of h ?h1 h'] by (auto simp: depth_kept_def)
  qed
next
  case (3 callees depth h)
  then show ?case by simp
next
  case (4 n callees depth h)
  show ?case
  proof (intro allI impI)
    fix h'
    assume a: "callees_loop (Suc n) callees depth h = Inr h'"
    show "depth_kept h h'"
    proof (cases "callees = []")
      case True
      then show ?thesis using a by (simp add: depth_kept_refl)
    next
      case ne: False
      show ?thesis
      proof (cases "flatten (h (last callees))")
        case True
        then show ?thesis using a ne 4(1) [OF ne refl refl True] by (simp add: Let_def)
      next
        case nf: False
        show ?thesis
        proof (cases "depth_below h (last callees) (depth + 1)")
          case True
          from a ne nf True obtain h1 where
            i: "increment_subr_depth n (last callees) (depth + 1) h = Inr h1"
            and c: "callees_loop n (butlast callees) depth h1 = Inr h'"
            by (auto simp: Let_def split: sum.splits)
          have "depth_kept h h1" using 4(2) [OF ne refl refl nf True] i by simp
          moreover have "depth_kept h1 h'" using 4(3) [OF ne refl refl nf True i] c by simp
          ultimately show ?thesis by (rule depth_kept_trans)
        next
          case False
          then show ?thesis using a ne nf 4(4) [OF ne refl refl nf False] by (simp add: Let_def)
        qed
      qed
    qed
  qed
qed

lemma calc_nesting_defined:
  "calc_nesting fuel subrs h = Inr h' \<Longrightarrow>
   depth_kept h h' \<and> (\<forall>s\<in>set subrs. max_call_depth (h' s) \<noteq> None)"
  unfolding calc_nesting_def
proof (induction subrs arbitrary: h)
  case Nil
  then show ?case by (simp add: depth_kept_refl)
next
  case (Cons x xs)
  let ?f = "\<lambda>subr h. if max_call_depth (h subr) = None
                       then increment_subr_depth fuel subr 1 h else Inr h"
  from Cons.prems obtain h1 where s: "?f x h = Inr h1" and r: "fold_err ?f xs h1 = Inr h'"
    by (auto split: sum.splits)
  have k: "depth_kept h h1 \<and> max_call_depth (h1 x) \<noteq> None"
    using s increment_callees_depth_kept(1) [of fuel x 1 h]
    by (auto simp: depth_kept_refl split: if_splits)
  have "depth_kept h1 h' \<and> (\<forall>s\<in>set xs. max_call_depth (h' s) \<noteq> None)"
    using Cons.IH [OF r] .
  then show ?case using k depth_kept_trans [of h h1 h'] by (auto simp: depth_kept_def)
qed

lemma increment_callees_error:
  "(increment_subr_depth n subr depth h = Inl e \<longrightarrow> e = OutOfFuel)"
  "(callees_loop n callees depth h = Inl e \<longrightarrow> e = OutOfFuel)"
proof (induction n subr depth h and n callees depth h
    rule: increment_subr_depth_callees_loop.induct)
  case (1 subr depth h)
  then show ?case by simp
next
  case (2 n subr depth h)
  then show ?case by (simp add: Let_def)
next
  case (3 callees depth h)
  then show ?case by simp
next
  case (4 n callees depth h)
  show ?case
  proof (cases "callees = []")
    case True
    then show ?thesis by simp
  next
    case ne: False
    show ?thesis
    proof (cases "flatten (h (last callees))")
      case True
      then show ?thesis using ne 4(1) [OF ne refl refl True] by (simp add: Let_def)
    next
      case nf: False
      show ?thesis
      proof (cases "depth_below h (last callees) (depth + 1)")
        case True
        show ?thesis
        proof (cases "increment_subr_depth n (last callees) (depth + 1) h")
          case (Inl e')
          then show ?thesis using ne nf True 4(2) [OF ne refl refl nf True] by (simp add: Let_def)
        next
          case (Inr h1)
          then show ?thesis
            using ne nf True 4(3) [OF ne refl refl nf True Inr] by (simp add: Let_def)
        qed
      next
        case False
        then show ?thesis using ne nf 4(4) [OF ne refl refl nf False] by (simp add: Let_def)
      qed
    qed
  qed
qed

lemma calc_nesting_error: "calc_nesting fuel subrs h = Inl e \<Longrightarrow> e = OutOfFuel"
  unfolding calc_nesting_def
  by (erule fold_err_error) (auto split: if_splits dest: increment_callees_error(1) [rule_format])

lemma too_deep_Inr: "too_deep nest_limit h s = Inr b \<Longrightarrow>
   \<exists>d. max_call_depth (h s) = Some d \<and> b = (nest_limit < int d)"
  by (auto simp: too_deep_def split: option.splits)

lemma not_too_deep_True: "(not_too_deep nest_limit h s = Inr True)
   = (\<exists>d. max_call_depth (h s) = Some d \<and> int d \<le> nest_limit)"
  by (auto simp: not_too_deep_def split: option.splits)

lemma nesting_stage_result:
  assumes "nesting_stage fuel nest_limit (h, g, l, bad) = Inr (h3, g', l', bad')"
  shows "g' = filter (\<lambda>s. \<exists>d. max_call_depth (h3 s) = Some d \<and> int d \<le> nest_limit) g"
    and "l' = map (filter (\<lambda>s. \<exists>d. max_call_depth (h3 s) = Some d \<and> int d \<le> nest_limit)) l"
    and "\<forall>s\<in>placed g l. \<exists>d. max_call_depth (h3 s) = Some d
            \<and> (nest_limit < int d \<longrightarrow> flatten (h3 s) \<and> s \<in> set bad')"
proof -
  from assms obtain h1 h2 tl tg where
    c1: "calc_nesting fuel g h = Inr h1"
    and c2: "fold_err (calc_nesting fuel) l h1 = Inr h2"
    and f1: "filter_err (too_deep nest_limit h2) (concat l) = Inr tl"
    and f2: "filter_err (too_deep nest_limit h2) g = Inr tg"
    and h3: "h3 = set_flatten (tl @ tg) h2"
    and f3: "map_err (filter_err (not_too_deep nest_limit h3)) l = Inr l'"
    and f4: "filter_err (not_too_deep nest_limit h3) g = Inr g'"
    and b: "bad' = bad @ tl @ tg"
    by (auto simp: nesting_stage_def Let_def dest!: bind_err_Inr)
  show "g' = filter (\<lambda>s. \<exists>d. max_call_depth (h3 s) = Some d \<and> int d \<le> nest_limit) g"
    using filter_err_Inr [OF f4] by (simp add: not_too_deep_True)
  show "l' = map (filter (\<lambda>s. \<exists>d. max_call_depth (h3 s) = Some d \<and> int d \<le> nest_limit)) l"
    using map_filter_err_Inr [OF f3] by (simp add: not_too_deep_True)
  have tl: "tl = filter (\<lambda>s. too_deep nest_limit h2 s = Inr True) (concat l)"
    using f1 by (rule filter_err_Inr)
  have tg: "tg = filter (\<lambda>s. too_deep nest_limit h2 s = Inr True) g"
    using f2 by (rule filter_err_Inr)
  have ok: "\<exists>bv. too_deep nest_limit h2 s = Inr bv" if "s \<in> placed g l" for s
    using that filter_err_Inr_elem [OF f1, of s] filter_err_Inr_elem [OF f2, of s]
    by (auto simp: placed_def)
  show "\<forall>s\<in>placed g l. \<exists>d. max_call_depth (h3 s) = Some d
            \<and> (nest_limit < int d \<longrightarrow> flatten (h3 s) \<and> s \<in> set bad')"
  proof
    fix s
    assume s: "s \<in> placed g l"
    then obtain bv where bv: "too_deep nest_limit h2 s = Inr bv" using ok by blast
    then obtain d where d: "max_call_depth (h2 s) = Some d" "bv = (nest_limit < int d)"
      using too_deep_Inr by blast
    have "s \<in> set (tl @ tg)" if "nest_limit < int d"
      using that s bv d tl tg by (auto simp: placed_def)
    then show "\<exists>d. max_call_depth (h3 s) = Some d
            \<and> (nest_limit < int d \<longrightarrow> flatten (h3 s) \<and> s \<in> set bad')"
      using d h3 b by (auto simp: set_flatten_depth set_flatten_flatten)
  qed
qed

lemma placed_cong: "set g = set g' \<Longrightarrow> map set l = map set l' \<Longrightarrow> placed g l = placed g' l'"
proof -
  assume a: "set g = set g'" and b: "map set l = map set l'"
  have "set ` set l = set (map set l)" by simp
  also have "\<dots> = set ` set l'" using b by simp
  finally show ?thesis using a by (simp add: placed_def)
qed

lemma nesting_stage_error: "nesting_stage fuel nest_limit st = Inl e \<Longrightarrow> e = OutOfFuel"
proof -
  assume a: "nesting_stage fuel nest_limit st = Inl e"
  obtain h g l bad where st: "st = (h, g, l, bad)" by (cases st) auto
  show ?thesis
  proof (cases "calc_nesting fuel g h")
    case (Inl e1)
    then show ?thesis using a st calc_nesting_error by (auto simp: nesting_stage_def)
  next
    case h1: (Inr h1)
    show ?thesis
    proof (cases "fold_err (calc_nesting fuel) l h1")
      case (Inl e2)
      then have "e2 = OutOfFuel"
        by (rule fold_err_error) (auto dest: calc_nesting_error)
      then show ?thesis using a st h1 Inl by (auto simp: nesting_stage_def)
    next
      case h2: (Inr h2)
      have k1: "depth_kept h h1" "\<forall>s\<in>set g. max_call_depth (h1 s) \<noteq> None"
        using calc_nesting_defined [OF h1] by auto
      have k2: "depth_kept h1 h2 \<and> (\<forall>s\<in>set (concat (take (length l) l)). max_call_depth (h2 s) \<noteq> None)"
        using h2
      proof (induction l arbitrary: h1)
        case Nil
        then show ?case by (simp add: depth_kept_refl)
      next
        case (Cons t ts)
        from Cons.prems obtain hm where m: "calc_nesting fuel t h1 = Inr hm"
          and r: "fold_err (calc_nesting fuel) ts hm = Inr h2"
          by (auto split: sum.splits)
        have "depth_kept h1 hm" "\<forall>s\<in>set t. max_call_depth (hm s) \<noteq> None"
          using calc_nesting_defined [OF m] by auto
        then show ?case using Cons.IH [OF r] depth_kept_trans [of h1 hm h2]
          by (auto simp: depth_kept_def)
      qed
      have def2: "\<forall>s\<in>set g \<union> set (concat l). max_call_depth (h2 s) \<noteq> None"
        using k1 k2 by (auto simp: depth_kept_def)
      have td: "\<exists>b. too_deep nest_limit h2 s = Inr b" if "s \<in> set g \<union> set (concat l)" for s
        using def2 that by (auto simp: too_deep_def split: option.splits)
      obtain tl where tl: "filter_err (too_deep nest_limit h2) (concat l) = Inr tl"
        using filter_err_total [of "concat l" "too_deep nest_limit h2"] td by auto
      obtain tg where tg: "filter_err (too_deep nest_limit h2) g = Inr tg"
        using filter_err_total [of g "too_deep nest_limit h2"] td by auto
      let ?h3 = "set_flatten (tl @ tg) h2"
      have ntd: "\<exists>b. not_too_deep nest_limit ?h3 s = Inr b"
        if "s \<in> set g \<union> set (concat l)" for s
        using def2 that by (auto simp: not_too_deep_def set_flatten_depth split: option.splits)
      obtain g' where g': "filter_err (not_too_deep nest_limit ?h3) g = Inr g'"
        using filter_err_total [of g "not_too_deep nest_limit ?h3"] ntd by auto
      have "\<exists>l'. map_err (filter_err (not_too_deep nest_limit ?h3)) l = Inr l'"
      proof (cases "map_err (filter_err (not_too_deep nest_limit ?h3)) l")
        case (Inl e3)
        then obtain t where t: "t \<in> set l" "filter_err (not_too_deep nest_limit ?h3) t = Inl e3"
          using map_err_Inl by fastforce
        then have "\<exists>ys. filter_err (not_too_deep nest_limit ?h3) t = Inr ys"
          using filter_err_total [of t "not_too_deep nest_limit ?h3"] ntd by auto
        then show ?thesis using t by simp
      next
        case (Inr l')
        then show ?thesis by blast
      qed
      then obtain l' where l': "map_err (filter_err (not_too_deep nest_limit ?h3)) l = Inr l'"
        by blast
      show ?thesis
        using a st h1 h2 tl tg g' l' by (simp add: nesting_stage_def Let_def)
    qed
  qed
qed

text \<open>
  The depth filter cannot raise: after \<^verbatim>\<open>calc_nesting\<close> has run over every table, every
  placed subroutine has its \<^verbatim>\<open>_max_call_depth\<close>. (Lemma \<open>nesting_stage_error\<close>: the only way
  lines 798 to 807 do not return is that the traversal does not end.)
\<close>

text \<open>
  Claim C6. After \<^verbatim>\<open>process_subrs\<close> returns, every subroutine in \<^verbatim>\<open>gsubrs\<close> and in any
  \<^verbatim>\<open>lsubrs\<close> list has a \<^verbatim>\<open>_max_call_depth\<close> of at most \<^verbatim>\<open>nest_limit\<close>; and of the
  subroutines that the assignment stage had placed, those within the limit are still
  placed, and those whose depth exceeds it are flattened and are in no table.
\<close>

theorem process_subrs_max_call_depth:
  assumes "process_subrs fuel chstrings glyph_set_keys encodings fdlen fdselect substrings
             rev_keymap subr_limit nest_limit h = Inr (h', gsubrs, lsubrs)"
  shows "(\<forall>s\<in>placed gsubrs lsubrs. \<exists>d. max_call_depth (h' s) = Some d \<and> int d \<le> nest_limit)
       \<and> (\<exists>h0 h1 g1 l1 bad1.
             mark_all fuel glyph_set_keys encodings fdselect h = Inr h0
           \<and> assign_stage fuel subr_limit fdlen substrings h0 = Inr (h1, g1, l1, bad1)
           \<and> (\<forall>s\<in>placed g1 l1. \<exists>d. max_call_depth (h' s) = Some d
                 \<and> (if int d \<le> nest_limit then s \<in> placed gsubrs lsubrs
                    else flatten (h' s) \<and> s \<notin> placed gsubrs lsubrs)))"
proof -
  from assms obtain h0 st1 st2 where
    m: "mark_all fuel glyph_set_keys encodings fdselect h = Inr h0"
    and a: "assign_stage fuel subr_limit fdlen substrings h0 = Inr st1"
    and n: "nesting_stage fuel nest_limit st1 = Inr st2"
    and e: "emission_stage chstrings rev_keymap fdlen st2 = Inr (h', gsubrs, lsubrs)"
    by (auto simp: process_subrs_def dest!: bind_err_Inr)
  obtain h1 g1 l1 bad1 where st1: "st1 = (h1, g1, l1, bad1)" by (cases st1) auto
  obtain h3 g3 l3 bad3 where st2: "st2 = (h3, g3, l3, bad3)" by (cases st2) auto
  let ?ok = "\<lambda>s. \<exists>d. max_call_depth (h3 s) = Some d \<and> int d \<le> nest_limit"
  have g3: "g3 = filter ?ok g1" and l3: "l3 = map (filter ?ok) l1"
    and all: "\<forall>s\<in>placed g1 l1. \<exists>d. max_call_depth (h3 s) = Some d
            \<and> (nest_limit < int d \<longrightarrow> flatten (h3 s) \<and> s \<in> set bad3)"
    using nesting_stage_result [OF n [unfolded st1 st2]] by auto
  have same: "same_nesting h3 h'" and sets: "set gsubrs = set g3" "map set lsubrs = map set l3"
    using emission_stage_props [OF e [unfolded st2]] by auto
  have p: "placed gsubrs lsubrs = placed g3 l3" using sets by (rule placed_cong)
  have p3: "placed g3 l3 = {s \<in> placed g1 l1. ?ok s}"
    using g3 l3 by (auto simp: placed_def)
  have d: "max_call_depth (h' s) = max_call_depth (h3 s)" "flatten (h' s) = flatten (h3 s)" for s
    using same by (auto simp: same_nesting_def)
  have first: "\<forall>s\<in>placed gsubrs lsubrs. \<exists>d. max_call_depth (h' s) = Some d \<and> int d \<le> nest_limit"
    using p p3 d by auto
  have second: "\<forall>s\<in>placed g1 l1. \<exists>d. max_call_depth (h' s) = Some d
                 \<and> (if int d \<le> nest_limit then s \<in> placed gsubrs lsubrs
                    else flatten (h' s) \<and> s \<notin> placed gsubrs lsubrs)"
  proof
    fix s
    assume s: "s \<in> placed g1 l1"
    then obtain dd where dd: "max_call_depth (h3 s) = Some dd"
      "nest_limit < int dd \<longrightarrow> flatten (h3 s)" using all by blast
    show "\<exists>d. max_call_depth (h' s) = Some d
                 \<and> (if int d \<le> nest_limit then s \<in> placed gsubrs lsubrs
                    else flatten (h' s) \<and> s \<notin> placed gsubrs lsubrs)"
      using s dd p p3 d by auto
  qed
  show ?thesis using first second m a st1 by blast
qed

theorem process_subrs_max_call_depth_witness:
  "\<not> isl (nested_run 65533 2) \<and> snd (projr (nested_run 65533 2)) = ([], [[1, 0]])
   \<and> (\<exists>d. max_call_depth (fst (projr (nested_run 65533 2)) 1) = Some d \<and> int d \<le> 2)
   \<and> map (\<lambda>r. max_call_depth (fst (projr (nested_run 65533 2)) r)) [0, 1, 2]
       = [Some 1, Some 2, Some 3]
   \<and> map (\<lambda>r. flatten (fst (projr (nested_run 65533 2)) r)) [0, 1, 2] = [False, False, True]"
proof -
  have a: "\<not> isl (nested_run 65533 2)" by code_simp
  have b: "snd (projr (nested_run 65533 2)) = ([], [[1, 0]])" by code_simp
  have c: "map (\<lambda>r. max_call_depth (fst (projr (nested_run 65533 2)) r)) [0, 1, 2]
       = [Some 1, Some 2, Some 3]" by code_simp
  have d: "map (\<lambda>r. flatten (fst (projr (nested_run 65533 2)) r)) [0, 1, 2]
       = [False, False, True]" by code_simp
  have "nested_run 65533 2 = Inr (projr (nested_run 65533 2))"
    using a by (cases "nested_run 65533 2") auto
  then have "nested_run 65533 2 = Inr (fst (projr (nested_run 65533 2)), [], [[1, 0]])"
    using b by (metis prod.collapse)
  then have "\<forall>s\<in>placed [] [[1, 0]].
      \<exists>d. max_call_depth (fst (projr (nested_run 65533 2)) s) = Some d \<and> int d \<le> 2"
    unfolding nested_run_def by (rule process_subrs_max_call_depth [THEN conjunct1])
  then have "\<exists>d. max_call_depth (fst (projr (nested_run 65533 2)) 1) = Some d \<and> int d \<le> 2"
    by (simp add: placed_def)
  then show ?thesis using a b c d by blast
qed

section \<open>Assignment overflow\<close>

text \<open>
  Claim C2 says that when survivors remain with every table at the limit, the assignment
  stage flattens them and raises nothing. Here the limit is 1 and three substrings
  survive: the first goes to the local table, the second to the global table, and the loop
  ends with the third left in \<^verbatim>\<open>subrs\<close>. Line 793 then indexes that \<^verbatim>\<open>CandidateSubr\<close> and
  raises \<^verbatim>\<open>TypeError\<close>.
\<close>

theorem assignment_overflow_raises:
  "nested_run 1 10 = Inl TypeError"
proof -
  have "isl (nested_run 1 10) \<and> projl (nested_run 1 10) = TypeError" by code_simp
  then show ?thesis by (cases "nested_run 1 10") auto
qed


end
